theory Spec2Isabelle
  imports Main
begin

section \<open>The data model of \<open>main.go\<close>\<close>

text \<open>
  \<open>NodeID\<close> is a Go string. \<open>NodeIDs\<close> is the Go type \<open>map[NodeID]struct{}\<close>, a set of
  identifiers: it is modelled as the list of its keys, in the order in which a
  \<open>range\<close> over the map yields them (Go leaves that order unspecified, so every
  statement below is made for all lists). The keys of a Go map are distinct.

  A work function \<open>NodeFn\<close> returns an \<open>error\<close>, where \<open>None\<close> is Go's \<open>nil\<close> error.
  A Go function value may itself be \<open>nil\<close>: a field of type \<open>NodeFn\<close> is an option.
\<close>

type_synonym NodeID = string
type_synonym NodeIDs = "NodeID list"
type_synonym SortedNodeIDs = "NodeID list"

text \<open>The four \<open>fmt.Errorf\<close> sites of the file, and the message each one formats.\<close>

datatype error =
    NodeAlreadyExists NodeID
  | NodeMissingDependency NodeID NodeID
  | NodeDoesNotExist NodeID
  | DetectedCycle NodeID

fun Error :: "error \<Rightarrow> string" where
  "Error (NodeAlreadyExists nid) = ''Node with id '' @ nid @ '' already exists''"
| "Error (NodeMissingDependency nid depId) =
     ''Node '' @ nid @ '' is missing dependency '' @ depId"
| "Error (NodeDoesNotExist n) = ''Node '' @ n @ '' does not exist''"
| "Error (DetectedCycle n) = ''Detected cycle on '' @ n"

type_synonym NodeFn = "NodeID \<Rightarrow> error option"

record Node =
  Name :: string
  Fn :: "NodeFn option"
  Dependencies :: NodeIDs

definition NewNode :: "string \<Rightarrow> NodeIDs \<Rightarrow> NodeFn option \<Rightarrow> Node" where
  "NewNode nm dependencies f = \<lparr>Name = nm, Fn = f, Dependencies = dependencies\<rparr>"

definition Identifier :: "Node \<Rightarrow> NodeID" where
  "Identifier n = Name n"

type_synonym Nodes = "NodeID \<rightharpoonup> Node"

record Graph =
  name :: string
  nodes :: Nodes

definition NewGraph :: "string \<Rightarrow> Graph" where
  "NewGraph nm = \<lparr>name = nm, nodes = Map.empty\<rparr>"

section \<open>\<open>Add\<close>\<close>

text \<open>
  The loop of \<open>Add\<close> over the dependencies: the first identifier, in the order of the
  range, that is not a key of the node map; \<open>None\<close> when the loop runs to its end.
\<close>

fun missing_dependency :: "Nodes \<Rightarrow> NodeIDs \<Rightarrow> NodeID option" where
  "missing_dependency ns [] = None"
| "missing_dependency ns (depId # rest) =
     (if ns depId = None then Some depId else missing_dependency ns rest)"

text \<open>
  \<open>Add\<close> has a pointer receiver and writes \<open>g.nodes\<close>: the model returns the graph after
  the call next to the result. Go's \<open>("", err)\<close> is \<open>Inl err\<close>, and \<open>(id, nil)\<close> is \<open>Inr id\<close>.
\<close>

definition Add :: "Graph \<Rightarrow> Node \<Rightarrow> (error + NodeID) \<times> Graph" where
  "Add g node =
     (let nid = Identifier node in
      if nodes g nid \<noteq> None then (Inl (NodeAlreadyExists nid), g)
      else (case missing_dependency (nodes g) (Dependencies node) of
              Some depId \<Rightarrow> (Inl (NodeMissingDependency nid depId), g)
            | None \<Rightarrow> (Inr nid, g\<lparr>nodes := (nodes g)(nid \<mapsto> node)\<rparr>)))"

text \<open>
  A caller's sequence of \<open>Add\<close> calls that all succeed, as in \<open>main\<close>; \<open>None\<close> as soon
  as one of them fails.
\<close>

fun AddAll :: "Graph \<Rightarrow> Node list \<Rightarrow> Graph option" where
  "AddAll g [] = Some g"
| "AddAll g (node # rest) =
     (case Add g node of
        (Inl err, g') \<Rightarrow> None
      | (Inr nid, g') \<Rightarrow> AddAll g' rest)"

section \<open>\<open>Sort\<close> and \<open>visit\<close>\<close>

text \<open>
  The three containers that \<open>Sort\<close> allocates and \<open>visit\<close> mutates: the two
  \<open>map[NodeID]bool\<close> (a missing key reads \<open>false\<close>) and the slice \<open>results\<close>, whose
  free slots hold the empty string.
\<close>

record sort_state =
  visited :: "NodeID \<Rightarrow> bool"
  stack :: "NodeID \<Rightarrow> bool"
  results :: "NodeID list"

text \<open>
  The last loop of \<open>visit\<close>: the first slot of \<open>results\<close> that holds the empty string
  receives the name; a slice without such a slot is left as it is.
\<close>

fun fill_first :: "NodeID \<Rightarrow> NodeID list \<Rightarrow> NodeID list" where
  "fill_first nm [] = []"
| "fill_first nm (r # rs) = (if r = [] then nm # rs else r # fill_first nm rs)"

text \<open>
  \<open>visit\<close> is a method of \<open>*Graph\<close> and mutates its arguments in place, so it maps the
  graph and the containers before the call to the returned error (\<open>None\<close> is \<open>nil\<close>) and
  the graph and containers after the call. Its recursion is bounded by the Go stack;
  the first argument bounds its depth, and \<open>None\<close> says that the bound was too small.
  \<open>visit_range\<close> is the loop \<open>for n := range neighbors\<close>.
\<close>

fun visit :: "nat \<Rightarrow> NodeID \<Rightarrow> NodeIDs \<Rightarrow> Graph \<times> sort_state
      \<Rightarrow> (error option \<times> Graph \<times> sort_state) option"
  and visit_range :: "nat \<Rightarrow> NodeIDs \<Rightarrow> Graph \<times> sort_state
      \<Rightarrow> (error option \<times> Graph \<times> sort_state) option"
where
  "visit 0 nm neighbors gs = None"
| "visit (Suc k) nm neighbors (g, st) =
     (case visit_range k neighbors
             (g, st\<lparr>visited := (visited st)(nm := True), stack := (stack st)(nm := True)\<rparr>) of
        None \<Rightarrow> None
      | Some (Some err, g', st') \<Rightarrow> Some (Some err, g', st')
      | Some (None, g', st') \<Rightarrow>
          Some (None, g', st'\<lparr>results := fill_first nm (results st'),
                              stack := (stack st')(nm := False)\<rparr>))"
| "visit_range k [] gs = Some (None, gs)"
| "visit_range k (n # rest) (g, st) =
     (if \<not> visited st n then
        (case nodes g n of
           None \<Rightarrow> Some (Some (NodeDoesNotExist n), g, st)
         | Some node \<Rightarrow>
             (case visit k n (Dependencies node) (g, st) of
                None \<Rightarrow> None
              | Some (Some err, gs') \<Rightarrow> Some (Some err, gs')
              | Some (None, gs') \<Rightarrow> visit_range k rest gs'))
      else if stack st n then Some (Some (DetectedCycle n), g, st)
      else visit_range k rest (g, st))"

text \<open>
  The loop \<open>for n, node := range g.nodes\<close> of \<open>Sort\<close>, over the keys of \<open>g.nodes\<close> in the
  order \<open>ks\<close> in which the range yields them; \<open>stack\<close> is a fresh map in each iteration
  that calls \<open>visit\<close>. (A range yields keys of the map only, so the case \<open>None\<close> of the
  lookup does not arise for a \<open>ks\<close> that lists the keys.)
\<close>

fun Sort_range :: "nat \<Rightarrow> NodeID list \<Rightarrow> Graph \<times> sort_state
      \<Rightarrow> (error option \<times> Graph \<times> sort_state) option" where
  "Sort_range k [] gs = Some (None, gs)"
| "Sort_range k (n # rest) (g, st) =
     (case nodes g n of
        None \<Rightarrow> Sort_range k rest (g, st)
      | Some node \<Rightarrow>
          (if \<not> visited st n then
             (case visit k n (Dependencies node) (g, st\<lparr>stack := (\<lambda>_. False)\<rparr>) of
                None \<Rightarrow> None
              | Some (Some err, gs') \<Rightarrow> Some (Some err, gs')
              | Some (None, gs') \<Rightarrow> Sort_range k rest gs')
           else Sort_range k rest (g, st)))"

text \<open>
  \<open>Sort\<close>: \<open>len(g.nodes)\<close> is the number of keys the range yields. Go's \<open>(nil, err)\<close> is
  \<open>Inl err\<close>; the second component is the graph after the call.
\<close>

definition Sort :: "nat \<Rightarrow> Graph \<Rightarrow> NodeID list
      \<Rightarrow> ((error + SortedNodeIDs) \<times> Graph) option" where
  "Sort fuel g ks =
     (case Sort_range fuel ks
             (g, \<lparr>visited = (\<lambda>_. False), stack = (\<lambda>_. False),
                  results = replicate (length ks) []\<rparr>) of
        None \<Rightarrow> None
      | Some (Some err, g', st) \<Rightarrow> Some (Inl err, g')
      | Some (None, g', st) \<Rightarrow> Some (Inr (results st), g'))"

text \<open>\<open>ks\<close> is an order in which a range over \<open>g.nodes\<close> may yield its keys.\<close>

definition range_order :: "('k \<rightharpoonup> 'v) \<Rightarrow> 'k list \<Rightarrow> bool" where
  "range_order m ks \<longleftrightarrow> distinct ks \<and> set ks = dom m"

section \<open>The executable graph\<close>

record ExecutableNode =
  targetIDs :: "NodeIDs option"
  required :: nat
  fn :: "NodeFn option"

text \<open>The zero value \<open>ExecutableNode{}\<close>: a \<open>nil\<close> map, \<open>0\<close> and a \<open>nil\<close> function.\<close>

definition zero_ExecutableNode :: ExecutableNode where
  "zero_ExecutableNode = \<lparr>targetIDs = None, required = 0, fn = None\<rparr>"

text \<open>\<open>m[id] = struct{}{}\<close> on a map held as the list of its keys.\<close>

definition put_key :: "NodeIDs \<Rightarrow> NodeID \<Rightarrow> NodeIDs" where
  "put_key m nid = (if nid \<in> set m then m else m @ [nid])"

definition AddTargets :: "ExecutableNode \<Rightarrow> NodeID list \<Rightarrow> ExecutableNode" where
  "AddTargets exn nodeIds =
     (case targetIDs exn of
        None \<Rightarrow> exn\<lparr>targetIDs := Some (foldl put_key [] nodeIds)\<rparr>
      | Some targets \<Rightarrow> exn\<lparr>targetIDs := Some (foldl put_key targets nodeIds)\<rparr>)"

type_synonym executableNodes = "NodeID \<rightharpoonup> ExecutableNode"

definition RootIds :: "executableNodes \<Rightarrow> NodeID list \<Rightarrow> NodeID list" where
  "RootIds en eks =
     filter (\<lambda>nid. case en nid of None \<Rightarrow> False | Some node \<Rightarrow> required node = 0) eks"

text \<open>
  \<open>GetOrCreate\<close> returns a pointer into the map: the model returns the node and the map
  after the call, and a write through the pointer is an update of the map at that key.
\<close>

definition GetOrCreate :: "executableNodes \<Rightarrow> NodeID \<Rightarrow> ExecutableNode \<times> executableNodes" where
  "GetOrCreate en nid =
     (case en nid of
        None \<Rightarrow> (zero_ExecutableNode, en(nid \<mapsto> zero_ExecutableNode))
      | Some n \<Rightarrow> (n, en))"

record ParallelizedExecutableGraph =
  peg_name :: string
  peg_nodes :: executableNodes

text \<open>The inner loop of \<open>CompileToExecutable\<close>, over the dependencies of the node \<open>nid\<close>.\<close>

fun compile_deps :: "NodeID \<Rightarrow> NodeIDs \<Rightarrow> executableNodes \<Rightarrow> executableNodes" where
  "compile_deps nid [] en = en"
| "compile_deps nid (depId # rest) en =
     (case GetOrCreate en depId of
        (dep, en') \<Rightarrow> compile_deps nid rest (en'(depId \<mapsto> AddTargets dep [nid])))"

text \<open>One iteration of the outer loop, for the key \<open>nid\<close> and its node.\<close>

definition compile_node :: "NodeID \<Rightarrow> Node \<Rightarrow> executableNodes \<Rightarrow> executableNodes" where
  "compile_node nid node en =
     (case GetOrCreate (compile_deps nid (Dependencies node) en) nid of
        (n, en') \<Rightarrow> en'(nid \<mapsto> n\<lparr>fn := Fn node, required := length (Dependencies node)\<rparr>))"

text \<open>
  The outer loop \<open>for id, node := range g.nodes\<close>, over the keys in the order \<open>ks\<close> of the
  range. The method has the receiver \<open>*Graph\<close>: the graph is passed through.
\<close>

fun compile_range :: "NodeID list \<Rightarrow> Graph \<times> executableNodes \<Rightarrow> Graph \<times> executableNodes" where
  "compile_range [] ge = ge"
| "compile_range (nid # rest) (g, en) =
     (case nodes g nid of
        None \<Rightarrow> compile_range rest (g, en)
      | Some node \<Rightarrow> compile_range rest (g, compile_node nid node en))"

definition CompileToExecutable :: "Graph \<Rightarrow> NodeID list \<Rightarrow> ParallelizedExecutableGraph \<times> Graph" where
  "CompileToExecutable g ks =
     (case compile_range ks (g, Map.empty) of
        (g', en) \<Rightarrow> (\<lparr>peg_name = name g', peg_nodes = en\<rparr>, g'))"

section \<open>\<open>run\<close> and \<open>runNode\<close>\<close>

text \<open>
  What a call can end in besides returning: \<open>peg.nodes[id]\<close> of a missing key is a \<open>nil\<close>
  pointer, and \<open>node.fn\<close> dereferences it; a \<open>nil\<close> function value cannot be called.
\<close>

datatype panic = NilNode NodeID | NilFn NodeID

text \<open>
  The effect of \<open>runNode\<close> is the sequence of calls \<open>node.fn(id)\<close> it makes: the model
  appends the identifier of each call to a log. The error that the call returns is
  dropped by the source (\<open>node.fn(id)\<close> is an expression statement), so it does not
  reach the log. The first argument bounds the depth of the recursion, as for \<open>visit\<close>;
  \<open>runNode_range\<close> is the loop \<open>for target := range node.targetIDs\<close> (a range over a
  \<open>nil\<close> map makes no iteration).
\<close>

fun runNode :: "nat \<Rightarrow> ParallelizedExecutableGraph \<Rightarrow> NodeID \<Rightarrow> NodeID list
      \<Rightarrow> (panic + NodeID list) option"
  and runNode_range :: "nat \<Rightarrow> ParallelizedExecutableGraph \<Rightarrow> NodeID list \<Rightarrow> NodeID list
      \<Rightarrow> (panic + NodeID list) option"
where
  "runNode 0 peg nid log = None"
| "runNode (Suc k) peg nid log =
     (case peg_nodes peg nid of
        None \<Rightarrow> Some (Inl (NilNode nid))
      | Some node \<Rightarrow>
          (case fn node of
             None \<Rightarrow> Some (Inl (NilFn nid))
           | Some f \<Rightarrow>
               (case f nid of r \<Rightarrow>
                  runNode_range k peg (case targetIDs node of None \<Rightarrow> [] | Some ts \<Rightarrow> ts)
                    (log @ [nid]))))"
| "runNode_range k peg [] log = Some (Inr log)"
| "runNode_range k peg (target # rest) log =
     (case runNode k peg target log of
        None \<Rightarrow> None
      | Some (Inl p) \<Rightarrow> Some (Inl p)
      | Some (Inr log') \<Rightarrow> runNode_range k peg rest log')"

text \<open>
  \<open>run\<close>: the loop over \<open>rootIds\<close> calls \<open>runNode\<close> on each element in turn, which is
  \<open>runNode_range\<close> again. \<open>eks\<close> is the order in which the range of \<open>RootIds\<close> yields the
  keys of \<open>peg.nodes\<close>. \<open>run\<close> has no result: what the model returns is the log of the
  calls made, or the panic.
\<close>

definition run :: "nat \<Rightarrow> ParallelizedExecutableGraph \<Rightarrow> NodeID list
      \<Rightarrow> (panic + NodeID list) option" where
  "run fuel peg eks = runNode_range fuel peg (RootIds (peg_nodes peg) eks) []"

section \<open>Notions used in the statements\<close>

text \<open>The set that a \<open>targetIDs\<close> map holds; a \<open>nil\<close> map holds nothing.\<close>

definition target_set :: "ExecutableNode \<Rightarrow> NodeID set" where
  "target_set exn = (case targetIDs exn of None \<Rightarrow> {} | Some ts \<Rightarrow> set ts)"

text \<open>The node that \<open>GetOrCreate\<close> hands out for a key.\<close>

definition get_or_zero :: "executableNodes \<Rightarrow> NodeID \<Rightarrow> ExecutableNode" where
  "get_or_zero en x = (case en x of None \<Rightarrow> zero_ExecutableNode | Some e \<Rightarrow> e)"

text \<open>
  The dependencies recorded for a key of the graph, and the keys among \<open>D\<close> that depend on
  \<open>x\<close>. \<open>compiled_upto g D en\<close> describes the map \<open>en\<close> of \<open>CompileToExecutable\<close> once the
  outer loop has handled the keys \<open>D\<close>.
\<close>

definition deps_of :: "Graph \<Rightarrow> NodeID \<Rightarrow> NodeIDs" where
  "deps_of g n = (case nodes g n of None \<Rightarrow> [] | Some node \<Rightarrow> Dependencies node)"

definition dependents :: "Graph \<Rightarrow> NodeID set \<Rightarrow> NodeID \<Rightarrow> NodeID set" where
  "dependents g D x = {n \<in> D. x \<in> set (deps_of g n)}"

definition compiled_node :: "Graph \<Rightarrow> NodeID set \<Rightarrow> NodeID \<Rightarrow> ExecutableNode \<Rightarrow> bool" where
  "compiled_node g D x e \<longleftrightarrow>
     fn e = (if x \<in> D then (case nodes g x of None \<Rightarrow> None | Some node \<Rightarrow> Fn node) else None) \<and>
     required e = (if x \<in> D then length (deps_of g x) else 0) \<and>
     target_set e = dependents g D x \<and>
     (targetIDs e = None \<longleftrightarrow> dependents g D x = {}) \<and>
     (\<forall>ts. targetIDs e = Some ts \<longrightarrow> distinct ts)"

definition compiled_upto :: "Graph \<Rightarrow> NodeID set \<Rightarrow> executableNodes \<Rightarrow> bool" where
  "compiled_upto g D en \<longleftrightarrow>
     (\<forall>x. (en x = None \<longleftrightarrow> x \<notin> D \<and> dependents g D x = {}) \<and>
          (\<forall>e. en x = Some e \<longrightarrow> compiled_node g D x e))"

text \<open>
  Two model values of one Go graph: the same keys and, under each key, the same name,
  the same work function and the same set of dependencies. The two may list the keys
  of a dependency map in different orders, as two ranges over the map may.
\<close>

definition same_graph :: "Graph \<Rightarrow> Graph \<Rightarrow> bool" where
  "same_graph g1 g2 \<longleftrightarrow>
     dom (nodes g1) = dom (nodes g2) \<and>
     (\<forall>n node1 node2. nodes g1 n = Some node1 \<and> nodes g2 n = Some node2 \<longrightarrow>
        Name node1 = Name node2 \<and> Fn node1 = Fn node2 \<and>
        set (Dependencies node1) = set (Dependencies node2) \<and>
        distinct (Dependencies node1) \<and> distinct (Dependencies node2))"

section \<open>Example graphs\<close>

text \<open>The work function of \<open>main\<close>: it prints and returns \<open>nil\<close>.\<close>

definition doodad :: NodeFn where
  "doodad = (\<lambda>nm. None)"

definition diamond_nodes :: "Node list" where
  "diamond_nodes =
     [NewNode ''A'' [] (Some doodad), NewNode ''E'' [] (Some doodad),
      NewNode ''C'' [''A'', ''E''] (Some doodad)]"

definition diamond :: Graph where
  "diamond = \<lparr>name = ''diamond'',
     nodes = [''A'' \<mapsto> NewNode ''A'' [] (Some doodad),
              ''E'' \<mapsto> NewNode ''E'' [] (Some doodad),
              ''C'' \<mapsto> NewNode ''C'' [''A'', ''E''] (Some doodad)]\<rparr>"

text \<open>The diamond again, with the dependencies of \<open>C\<close> in the other order.\<close>

definition diamond_reordered :: Graph where
  "diamond_reordered = \<lparr>name = ''diamond'',
     nodes = [''C'' \<mapsto> NewNode ''C'' [''E'', ''A''] (Some doodad),
              ''E'' \<mapsto> NewNode ''E'' [] (Some doodad),
              ''A'' \<mapsto> NewNode ''A'' [] (Some doodad)]\<rparr>"

text \<open>
  A graph with the empty string as an identifier: \<open>Add\<close> takes it like any other name.
\<close>

definition empty_id_nodes :: "Node list" where
  "empty_id_nodes = [NewNode [] [] (Some doodad), NewNode ''b'' [[]] (Some doodad)]"

definition empty_id_graph :: Graph where
  "empty_id_graph = \<lparr>name = ''g'',
     nodes = [[] \<mapsto> NewNode [] [] (Some doodad),
              ''b'' \<mapsto> NewNode ''b'' [[]] (Some doodad)]\<rparr>"

section \<open>Notions used in the statements about \<open>run\<close>\<close>

text \<open>
  \<open>prepend log r\<close> is the outcome \<open>r\<close> of a run that started on the empty log, seen from a
  run that started on \<open>log\<close>.
\<close>

fun prepend :: "NodeID list \<Rightarrow> (panic + NodeID list) option \<Rightarrow> (panic + NodeID list) option" where
  "prepend log None = None"
| "prepend log (Some (Inl p)) = Some (Inl p)"
| "prepend log (Some (Inr tr)) = Some (Inr (log @ tr))"

text \<open>The keys that \<open>range node.targetIDs\<close> yields; none for a \<open>nil\<close> map.\<close>

definition target_list :: "ExecutableNode \<Rightarrow> NodeID list" where
  "target_list node = (case targetIDs node of None \<Rightarrow> [] | Some ts \<Rightarrow> ts)"

text \<open>\<open>peg\<close> holds what the outer loop of \<open>CompileToExecutable\<close> leaves after all keys of \<open>g\<close>.\<close>

definition plan_of :: "Graph \<Rightarrow> ParallelizedExecutableGraph \<Rightarrow> bool" where
  "plan_of g peg \<longleftrightarrow> compiled_upto g (dom (nodes g)) (peg_nodes peg)"

text \<open>
  The order of insertion: every node of \<open>g\<close> has a rank below \<open>b\<close>, and each of its
  dependencies is a key of \<open>g\<close> of smaller rank.
\<close>

definition ranked :: "Graph \<Rightarrow> (NodeID \<Rightarrow> nat) \<Rightarrow> nat \<Rightarrow> bool" where
  "ranked g r b \<longleftrightarrow>
     (\<forall>n node. nodes g n = Some node \<longrightarrow>
        r n < b \<and> (\<forall>d \<in> set (Dependencies node). nodes g d \<noteq> None \<and> r d < r n))"

text \<open>
  \<open>peg\<close> is the plan \<open>peg'\<close> with the keys of each \<open>targetIDs\<close> map listed in some order:
  a range over such a map may yield its keys in any order. \<open>compiled_plan g peg\<close>: \<open>peg\<close> is
  a plan that \<open>CompileToExecutable\<close> returns for \<open>g\<close>, for some order of its range over
  \<open>g.nodes\<close>, read in this way.
\<close>

definition plan_reading :: "ParallelizedExecutableGraph \<Rightarrow> ParallelizedExecutableGraph \<Rightarrow> bool" where
  "plan_reading peg peg' \<longleftrightarrow>
     (\<forall>x. (peg_nodes peg x = None \<and> peg_nodes peg' x = None) \<or>
          (\<exists>e e'. peg_nodes peg x = Some e \<and> peg_nodes peg' x = Some e' \<and>
             required e = required e' \<and> fn e = fn e' \<and>
             (targetIDs e = None \<longleftrightarrow> targetIDs e' = None) \<and>
             target_set e = target_set e' \<and> distinct (target_list e)))"

definition compiled_plan :: "Graph \<Rightarrow> ParallelizedExecutableGraph \<Rightarrow> bool" where
  "compiled_plan g peg \<longleftrightarrow>
     (\<exists>ks. range_order (nodes g) ks \<and> plan_reading peg (fst (CompileToExecutable g ks)))"

text \<open>A work function that returns an error, and the chain \<open>B\<close> depends on \<open>A\<close>.\<close>

definition failing_work :: NodeFn where
  "failing_work = (\<lambda>nm. Some (NodeDoesNotExist nm))"

definition chain_nodes :: "NodeFn \<Rightarrow> Node list" where
  "chain_nodes f = [NewNode ''A'' [] (Some f), NewNode ''B'' [''A''] (Some doodad)]"

definition chain :: "NodeFn \<Rightarrow> Graph" where
  "chain f = \<lparr>name = ''chain'',
     nodes = [''A'' \<mapsto> NewNode ''A'' [] (Some f),
              ''B'' \<mapsto> NewNode ''B'' [''A''] (Some doodad)]\<rparr>"

text \<open>
  Two plans that differ at most in the work functions they hold: the same keys, the same
  \<open>targetIDs\<close> and \<open>required\<close>, and a function in one where there is a function in the
  other.
\<close>

definition same_but_work ::
    "ParallelizedExecutableGraph \<Rightarrow> ParallelizedExecutableGraph \<Rightarrow> bool" where
  "same_but_work peg1 peg2 \<longleftrightarrow>
     (\<forall>x. (peg_nodes peg1 x = None \<and> peg_nodes peg2 x = None) \<or>
          (\<exists>e1 e2. peg_nodes peg1 x = Some e1 \<and> peg_nodes peg2 x = Some e2 \<and>
             targetIDs e1 = targetIDs e2 \<and> required e1 = required e2 \<and>
             (fn e1 = None \<longleftrightarrow> fn e2 = None)))"

section \<open>Notions used in the statements about \<open>Sort\<close>\<close>

text \<open>The keys of the graph that \<open>visit\<close> has not marked yet.\<close>

definition unvisited :: "Graph \<Rightarrow> sort_state \<Rightarrow> NodeID set" where
  "unvisited g st = {n \<in> dom (nodes g). \<not> visited st n}"

text \<open>The dependency edges of a graph: \<open>(n, d)\<close> when the node under the key \<open>n\<close> depends on \<open>d\<close>.\<close>

definition depends :: "Graph \<Rightarrow> (NodeID \<times> NodeID) set" where
  "depends g = {(n, d). d \<in> set (deps_of g n)}"

text \<open>
  What an error of \<open>Sort\<close> tells: a cycle through the node it names, or a dependency
  that is not a key of the graph.
\<close>

definition cycle_or_missing :: "Graph \<Rightarrow> error \<Rightarrow> bool" where
  "cycle_or_missing g err \<longleftrightarrow>
     (\<exists>c. err = DetectedCycle c \<and> (c, c) \<in> (depends g)\<^sup>+) \<or>
     (\<exists>n d. err = NodeDoesNotExist d \<and> d \<in> set (deps_of g n) \<and> nodes g d = None)"

text \<open>
  The outcome of a call of \<open>visit\<close>: an error that tells the truth, or a \<open>stack\<close> that marks
  no node it did not mark before the call.
\<close>

definition sound_outcome :: "Graph \<Rightarrow> sort_state \<Rightarrow> error option \<Rightarrow> sort_state \<Rightarrow> bool" where
  "sound_outcome g st e st' =
     (case e of Some err \<Rightarrow> cycle_or_missing g err
      | None \<Rightarrow> (\<forall>a. stack st' a \<longrightarrow> stack st a))"

text \<open>
  The nodes that \<open>visit\<close> has left: marked in \<open>visited\<close>, no longer in \<open>stack\<close>. The
  invariant of the traversal: \<open>stack\<close> lies within \<open>visited\<close>, the dependencies of a
  finished node are finished, and no cycle goes through a finished node.
\<close>

definition finished :: "sort_state \<Rightarrow> NodeID set" where
  "finished st = {n. visited st n \<and> \<not> stack st n}"

definition dfs_inv :: "Graph \<Rightarrow> sort_state \<Rightarrow> bool" where
  "dfs_inv g st \<longleftrightarrow>
     (\<forall>a. stack st a \<longrightarrow> visited st a) \<and>
     (\<forall>n d. n \<in> finished st \<and> d \<in> set (deps_of g n) \<longrightarrow> d \<in> finished st) \<and>
     (\<forall>n. n \<in> finished st \<longrightarrow> (n, n) \<notin> (depends g)\<^sup>+)"

definition dfs_post :: "Graph \<Rightarrow> sort_state \<Rightarrow> sort_state \<Rightarrow> bool" where
  "dfs_post g st st' \<longleftrightarrow>
     dfs_inv g st' \<and> stack st' = stack st \<and> (\<forall>x. visited st x \<longrightarrow> visited st' x)"

text \<open>
  Graphs with a cycle. \<open>Add\<close> alone builds none; \<open>NewNode\<close> keeps the caller's map of
  dependencies, so keys put into that map after \<open>Add\<close> reach the graph. In \<open>cycle3\<close>,
  \<open>A\<close> depends on \<open>C\<close>, \<open>B\<close> on \<open>A\<close> and \<open>C\<close> on \<open>B\<close>; in \<open>cycle_missing\<close>, \<open>A\<close> and \<open>B\<close> depend on
  each other and \<open>A\<close> also on \<open>Z\<close>, which is not a key.
\<close>

definition cycle3 :: Graph where
  "cycle3 = \<lparr>name = ''cycle'',
     nodes = [''A'' \<mapsto> NewNode ''A'' [''C''] (Some doodad),
              ''B'' \<mapsto> NewNode ''B'' [''A''] (Some doodad),
              ''C'' \<mapsto> NewNode ''C'' [''B''] (Some doodad)]\<rparr>"

definition cycle_missing :: Graph where
  "cycle_missing = \<lparr>name = ''cycle'',
     nodes = [''A'' \<mapsto> NewNode ''A'' [''Z'', ''B''] (Some doodad),
              ''B'' \<mapsto> NewNode ''B'' [''A''] (Some doodad)]\<rparr>"

section \<open>Properties of \<open>Add\<close>\<close>

lemma missing_dependency_None:
  "missing_dependency ns ds = None \<longleftrightarrow> (\<forall>d \<in> set ds. ns d \<noteq> None)"
  by (induction ds) auto

lemma missing_dependency_Some:
  "missing_dependency ns ds = Some d \<Longrightarrow> d \<in> set ds \<and> ns d = None"
  by (induction ds) (auto split: if_splits)

text \<open>
  Claim C3. \<open>Add\<close> fails with the "already exists" error when the identifier is a key of
  the graph; otherwise, when some declared dependency is not a key, it fails with the
  "missing dependency" error, which names such a dependency; the first check comes
  before the second. Every failure returns the graph as it was. Otherwise \<open>Add\<close>
  returns the identifier and stores the node under it.
\<close>

theorem Add_checks_in_order:
  "(nodes g (Identifier node) \<noteq> None \<longrightarrow>
      Add g node = (Inl (NodeAlreadyExists (Identifier node)), g)) \<and>
   (nodes g (Identifier node) = None \<and> (\<exists>d \<in> set (Dependencies node). nodes g d = None) \<longrightarrow>
      (\<exists>d \<in> set (Dependencies node). nodes g d = None \<and>
         Add g node = (Inl (NodeMissingDependency (Identifier node) d), g))) \<and>
   (nodes g (Identifier node) = None \<and> (\<forall>d \<in> set (Dependencies node). nodes g d \<noteq> None) \<longrightarrow>
      Add g node = (Inr (Identifier node), g\<lparr>nodes := (nodes g)(Identifier node \<mapsto> node)\<rparr>)) \<and>
   (\<forall>err g'. Add g node = (Inl err, g') \<longrightarrow> g' = g)"
proof (intro conjI impI allI)
  assume "nodes g (Identifier node) \<noteq> None"
  then show "Add g node = (Inl (NodeAlreadyExists (Identifier node)), g)"
    by (simp add: Add_def Let_def)
next
  assume a: "nodes g (Identifier node) = None \<and> (\<exists>d \<in> set (Dependencies node). nodes g d = None)"
  then obtain d where d: "missing_dependency (nodes g) (Dependencies node) = Some d"
    using missing_dependency_None [of "nodes g" "Dependencies node"] by (cases "missing_dependency (nodes g) (Dependencies node)") auto
  from missing_dependency_Some [OF d] a d
  show "\<exists>d \<in> set (Dependencies node). nodes g d = None \<and>
         Add g node = (Inl (NodeMissingDependency (Identifier node) d), g)"
    by (auto simp: Add_def)
next
  assume "nodes g (Identifier node) = None \<and> (\<forall>d \<in> set (Dependencies node). nodes g d \<noteq> None)"
  then show "Add g node = (Inr (Identifier node), g\<lparr>nodes := (nodes g)(Identifier node \<mapsto> node)\<rparr>)"
    using missing_dependency_None [of "nodes g" "Dependencies node"] by (simp add: Add_def Let_def)
next
  fix err g' assume "Add g node = (Inl err, g')"
  then show "g' = g"
    by (auto simp: Add_def Let_def split: if_splits option.splits)
qed

theorem Add_checks_in_order_witness:
  "nodes diamond (Identifier (NewNode ''A'' [] None)) \<noteq> None \<and>
   Add diamond (NewNode ''A'' [] None) = (Inl (NodeAlreadyExists ''A''), diamond) \<and>
   nodes diamond (Identifier (NewNode ''B'' [''A'', ''Z''] None)) = None \<and>
   (\<exists>d \<in> set (Dependencies (NewNode ''B'' [''A'', ''Z''] None)). nodes diamond d = None) \<and>
   Add diamond (NewNode ''B'' [''A'', ''Z''] None) = (Inl (NodeMissingDependency ''B'' ''Z''), diamond) \<and>
   set (Dependencies (NewNode ''B'' [''A'', ''E''] None)) = {''A'', ''E''} \<and>
   nodes diamond ''A'' \<noteq> None \<and> nodes diamond ''E'' \<noteq> None \<and>
   Add diamond (NewNode ''B'' [''A'', ''E''] None)
     = (Inr ''B'', diamond\<lparr>nodes := (nodes diamond)(''B'' \<mapsto> NewNode ''B'' [''A'', ''E''] None)\<rparr>)"
  using Add_checks_in_order [of diamond "NewNode ''A'' [] None"]
    Add_checks_in_order [of diamond "NewNode ''B'' [''A'', ''Z''] None"]
    Add_checks_in_order [of diamond "NewNode ''B'' [''A'', ''E''] None"]
  by (simp add: diamond_def NewNode_def Identifier_def)


section \<open>Properties of \<open>CompileToExecutable\<close>\<close>

lemma AddTargets_idem: "AddTargets (AddTargets e [n]) [n] = AddTargets e [n]"
  by (cases "targetIDs e") (auto simp: AddTargets_def put_key_def)

lemma compile_deps_lookup:
  "compile_deps nid ds en x =
     (if x \<in> set ds then Some (AddTargets (get_or_zero en x) [nid]) else en x)"
proof (induction ds arbitrary: en)
  case Nil
  show ?case by simp
next
  case (Cons d ds)
  show ?case
    by (cases "en d") (auto simp: Cons.IH GetOrCreate_def get_or_zero_def AddTargets_idem)
qed

lemma compile_node_lookup:
  "compile_node nid node en x =
     (if x = nid
      then Some ((get_or_zero (compile_deps nid (Dependencies node) en) nid)
                  \<lparr>fn := Fn node, required := length (Dependencies node)\<rparr>)
      else compile_deps nid (Dependencies node) en x)"
  by (cases "compile_deps nid (Dependencies node) en nid")
     (auto simp: compile_node_def GetOrCreate_def get_or_zero_def)

lemma compile_range_graph: "fst (compile_range ks (g, en)) = g"
  by (induction ks arbitrary: en) (auto split: option.splits)

lemma compiled_upto_None:
  "compiled_upto g D en \<Longrightarrow> (en x = None \<longleftrightarrow> x \<notin> D \<and> dependents g D x = {})"
  unfolding compiled_upto_def by (erule allE [of _ x]) (erule conjE, assumption)

lemma compiled_upto_Some:
  "compiled_upto g D en \<Longrightarrow> en x = Some e \<Longrightarrow> compiled_node g D x e"
  unfolding compiled_upto_def by (erule allE [of _ x]) (erule conjE, erule allE [of _ e], erule mp)

lemma put_key_set: "set (put_key m n) = insert n (set m)"
  by (auto simp: put_key_def)

lemma put_key_distinct: "distinct m \<Longrightarrow> distinct (put_key m n)"
  by (auto simp: put_key_def)

lemma AddTargets_fields:
  "fn (AddTargets e [n]) = fn e" "required (AddTargets e [n]) = required e"
  "target_set (AddTargets e [n]) = insert n (target_set e)"
  "targetIDs (AddTargets e [n]) \<noteq> None"
  by (cases "targetIDs e"; simp add: AddTargets_def target_set_def put_key_set)+

lemma AddTargets_distinct:
  "(\<forall>ts. targetIDs e = Some ts \<longrightarrow> distinct ts) \<Longrightarrow> targetIDs (AddTargets e [n]) = Some ts'
     \<Longrightarrow> distinct ts'"
  by (cases "targetIDs e") (auto simp: AddTargets_def put_key_distinct put_key_def)

lemma zero_fields:
  "fn zero_ExecutableNode = None" "required zero_ExecutableNode = 0"
  "target_set zero_ExecutableNode = {}" "targetIDs zero_ExecutableNode = None"
  by (simp_all add: zero_ExecutableNode_def target_set_def)

lemma dependents_insert:
  "nodes g nid = Some node \<Longrightarrow>
   dependents g (insert nid D) x =
     (if x \<in> set (Dependencies node) then insert nid (dependents g D x) else dependents g D x)"
  by (auto simp: dependents_def deps_of_def)

lemma target_set_update [simp]:
  "target_set (e\<lparr>fn := f, required := r\<rparr>) = target_set e"
  by (simp add: target_set_def)

lemma compile_node_eq_None:
  "compile_node nid node en x = None \<longleftrightarrow>
     x \<noteq> nid \<and> x \<notin> set (Dependencies node) \<and> en x = None"
  by (simp add: compile_node_lookup compile_deps_lookup)

lemma compiled_node_zero:
  "x \<notin> D \<Longrightarrow> dependents g D x = {} \<Longrightarrow> compiled_node g D x zero_ExecutableNode"
  by (simp add: compiled_node_def zero_fields)

lemma compiled_node_other:
  assumes "compiled_node g D x e" "nodes g nid = Some node" "x \<noteq> nid"
    "x \<notin> set (Dependencies node)"
  shows "compiled_node g (insert nid D) x e"
  using assms unfolding compiled_node_def dependents_insert [OF assms(2)] by simp

lemma compiled_node_dep:
  assumes "compiled_node g D x e" "nodes g nid = Some node" "x \<noteq> nid"
    "x \<in> set (Dependencies node)"
  shows "compiled_node g (insert nid D) x (AddTargets e [nid])"
proof -
  have d: "\<forall>ts. targetIDs (AddTargets e [nid]) = Some ts \<longrightarrow> distinct ts"
    using assms(1) AddTargets_distinct [of e nid] unfolding compiled_node_def by blast
  have "dependents g (insert nid D) x \<noteq> {}"
    unfolding dependents_insert [OF assms(2)] using assms(4) by simp
  with assms d show ?thesis
    unfolding compiled_node_def dependents_insert [OF assms(2)]
    by (simp add: AddTargets_fields)
qed

lemma compiled_node_self:
  assumes "compiled_node g D nid e" "nodes g nid = Some node" "nid \<notin> D"
    "nid \<notin> set (Dependencies node)"
  shows "compiled_node g (insert nid D) nid
           (e\<lparr>fn := Fn node, required := length (Dependencies node)\<rparr>)"
  using assms unfolding compiled_node_def dependents_insert [OF assms(2)]
  by (simp add: deps_of_def)

lemma compiled_node_self_dep:
  assumes "compiled_node g D nid e" "nodes g nid = Some node" "nid \<notin> D"
    "nid \<in> set (Dependencies node)"
  shows "compiled_node g (insert nid D) nid
           ((AddTargets e [nid])\<lparr>fn := Fn node, required := length (Dependencies node)\<rparr>)"
proof -
  have d: "\<forall>ts. targetIDs (AddTargets e [nid]) = Some ts \<longrightarrow> distinct ts"
    using assms(1) AddTargets_distinct [of e nid] unfolding compiled_node_def by blast
  have "dependents g (insert nid D) nid \<noteq> {}"
    unfolding dependents_insert [OF assms(2)] using assms(4) by simp
  with assms d show ?thesis
    unfolding compiled_node_def dependents_insert [OF assms(2)]
    by (simp add: AddTargets_fields deps_of_def)
qed

lemma compiled_upto_step:
  assumes M: "compiled_upto g D en" and n: "nodes g nid = Some node" and nd: "nid \<notin> D"
  shows "compiled_upto g (insert nid D) (compile_node nid node en)"
  unfolding compiled_upto_def
proof (intro allI conjI impI)
  fix x
  note none = compiled_upto_None [OF M, of x]
  show "compile_node nid node en x = None \<longleftrightarrow>
          x \<notin> insert nid D \<and> dependents g (insert nid D) x = {}"
    unfolding compile_node_eq_None dependents_insert [OF n] none by auto
  fix e assume e: "compile_node nid node en x = Some e"
  have base: "compiled_node g D x (get_or_zero en x)"
  proof (cases "en x")
    case None
    with none have "x \<notin> D" "dependents g D x = {}" by simp_all
    then show ?thesis using None by (simp add: get_or_zero_def compiled_node_zero)
  next
    case (Some e')
    then show ?thesis using compiled_upto_Some [OF M Some] by (simp add: get_or_zero_def)
  qed
  consider (self_dep) "x = nid" "nid \<in> set (Dependencies node)"
    | (self) "x = nid" "nid \<notin> set (Dependencies node)"
    | (dep) "x \<noteq> nid" "x \<in> set (Dependencies node)"
    | (other) "x \<noteq> nid" "x \<notin> set (Dependencies node)"
    by blast
  then show "compiled_node g (insert nid D) x e"
  proof cases
    case self_dep
    with e have "e = (AddTargets (get_or_zero en nid) [nid])
                        \<lparr>fn := Fn node, required := length (Dependencies node)\<rparr>"
      by (simp add: compile_node_lookup compile_deps_lookup get_or_zero_def)
    with compiled_node_self_dep [OF _ n nd self_dep(2)] base self_dep(1) show ?thesis by simp
  next
    case self
    with e have "e = (get_or_zero en nid)
                        \<lparr>fn := Fn node, required := length (Dependencies node)\<rparr>"
      by (simp add: compile_node_lookup compile_deps_lookup get_or_zero_def)
    with compiled_node_self [OF _ n nd self(2)] base self(1) show ?thesis by simp
  next
    case dep
    with e have "e = AddTargets (get_or_zero en x) [nid]"
      by (simp add: compile_node_lookup compile_deps_lookup)
    with compiled_node_dep [OF base n dep] show ?thesis by simp
  next
    case other
    with e have "en x = Some e"
      by (simp add: compile_node_lookup compile_deps_lookup)
    from compiled_node_other [OF compiled_upto_Some [OF M this] n other] show ?thesis .
  qed
qed

lemma compiled_upto_range:
  "compiled_upto g D en \<Longrightarrow> distinct ks \<Longrightarrow> set ks \<inter> D = {} \<Longrightarrow> set ks \<subseteq> dom (nodes g) \<Longrightarrow>
   compiled_upto g (D \<union> set ks) (snd (compile_range ks (g, en)))"
proof (induction ks arbitrary: D en)
  case Nil
  then show ?case by simp
next
  case (Cons k ks)
  from Cons.prems(4) obtain node where n: "nodes g k = Some node" by auto
  from Cons.prems(3) have kd: "k \<notin> D" by auto
  have s: "compiled_upto g (insert k D) (compile_node k node en)"
    by (rule compiled_upto_step [OF Cons.prems(1) n kd])
  have "compiled_upto g (insert k D \<union> set ks) (snd (compile_range ks (g, compile_node k node en)))"
  proof (rule Cons.IH [OF s])
    show "distinct ks" using Cons.prems(2) by simp
    show "set ks \<inter> insert k D = {}" using Cons.prems(2,3) by auto
    show "set ks \<subseteq> dom (nodes g)" using Cons.prems(4) by simp
  qed
  then show ?case using n by simp
qed

lemma compiled_upto_empty: "compiled_upto g {} Map.empty"
  by (simp add: compiled_upto_def dependents_def)

lemma CompileToExecutable_nodes:
  "peg_nodes (fst (CompileToExecutable g ks)) = snd (compile_range ks (g, Map.empty))"
  by (simp add: CompileToExecutable_def split: prod.splits)

lemma compiled_upto_Compile:
  assumes "range_order (nodes g) ks"
  shows "compiled_upto g (dom (nodes g)) (peg_nodes (fst (CompileToExecutable g ks)))"
proof -
  from assms have ks: "distinct ks" "set ks = dom (nodes g)"
    by (simp_all add: range_order_def)
  have "compiled_upto g ({} \<union> set ks) (snd (compile_range ks (g, Map.empty)))"
    by (rule compiled_upto_range [OF compiled_upto_empty ks(1)]) (simp_all add: ks(2))
  then show ?thesis
    unfolding CompileToExecutable_nodes ks(2) by simp
qed

lemma diamond_built: "AddAll (NewGraph ''diamond'') diamond_nodes = Some diamond"
  by (simp add: diamond_nodes_def diamond_def NewGraph_def Add_def NewNode_def Identifier_def Let_def)

lemma diamond_order: "range_order (nodes diamond) [''A'', ''E'', ''C'']"
  by (auto simp: range_order_def diamond_def)

lemma diamond_compiled_C:
  "peg_nodes (fst (CompileToExecutable diamond [''A'', ''E'', ''C''])) ''C''
     = Some \<lparr>targetIDs = None, required = 2, fn = Some doodad\<rparr>"
  by (simp add: CompileToExecutable_def diamond_def NewNode_def compile_node_def
        GetOrCreate_def AddTargets_def put_key_def zero_ExecutableNode_def)

lemma diamond_compiled_A:
  "peg_nodes (fst (CompileToExecutable diamond [''A'', ''E'', ''C''])) ''A''
     = Some \<lparr>targetIDs = Some [''C''], required = 0, fn = Some doodad\<rparr>"
  by (simp add: CompileToExecutable_def diamond_def NewNode_def compile_node_def
        GetOrCreate_def AddTargets_def put_key_def zero_ExecutableNode_def)

lemma diamond_compiled_dom:
  "dom (peg_nodes (fst (CompileToExecutable diamond [''A'', ''E'', ''C'']))) = {''A'', ''E'', ''C''}"
  by (simp add: CompileToExecutable_def diamond_def NewNode_def compile_node_def
        GetOrCreate_def AddTargets_def put_key_def zero_ExecutableNode_def) auto

lemma diamond_compiled_order:
  "range_order (peg_nodes (fst (CompileToExecutable diamond [''A'', ''E'', ''C''])))
     [''C'', ''A'', ''E'']"
  unfolding range_order_def diamond_compiled_dom by auto

lemma diamond_compiled_roots:
  "RootIds (peg_nodes (fst (CompileToExecutable diamond [''A'', ''E'', ''C''])))
     [''C'', ''A'', ''E''] = [''A'', ''E'']"
  by (simp add: RootIds_def CompileToExecutable_def diamond_def NewNode_def compile_node_def
        GetOrCreate_def AddTargets_def put_key_def zero_ExecutableNode_def)

text \<open>
  Claim C7. In the plan compiled from a graph, every key of the graph has an executable
  node whose \<open>required\<close> is the number of the node's dependencies and whose \<open>fn\<close> is the
  node's \<open>Fn\<close>; for every dependency \<open>d\<close> of a node \<open>n\<close>, the executable node of \<open>d\<close> has \<open>n\<close>
  among its targets; and \<open>RootIds\<close> returns, once each, the keys whose executable node has
  \<open>required = 0\<close>.
\<close>

theorem Compile_topology:
  assumes ks: "range_order (nodes g) ks"
  shows "(\<forall>n node. nodes g n = Some node \<longrightarrow>
            (\<exists>e. peg_nodes (fst (CompileToExecutable g ks)) n = Some e \<and>
                 required e = length (Dependencies node) \<and>
                 (distinct (Dependencies node) \<longrightarrow> required e = card (set (Dependencies node))) \<and>
                 fn e = Fn node)) \<and>
         (\<forall>n node d. nodes g n = Some node \<and> d \<in> set (Dependencies node) \<longrightarrow>
            (\<exists>e. peg_nodes (fst (CompileToExecutable g ks)) d = Some e \<and> n \<in> target_set e)) \<and>
         (\<forall>eks. range_order (peg_nodes (fst (CompileToExecutable g ks))) eks \<longrightarrow>
            distinct (RootIds (peg_nodes (fst (CompileToExecutable g ks))) eks) \<and>
            set (RootIds (peg_nodes (fst (CompileToExecutable g ks))) eks) =
              {x. \<exists>e. peg_nodes (fst (CompileToExecutable g ks)) x = Some e \<and> required e = 0})"
proof (intro conjI allI impI)
  let ?en = "peg_nodes (fst (CompileToExecutable g ks))"
  have M: "compiled_upto g (dom (nodes g)) ?en"
    by (rule compiled_upto_Compile [OF ks])
  { fix n node assume n: "nodes g n = Some node"
    then have "?en n \<noteq> None"
      using compiled_upto_None [OF M, of n] by auto
    then obtain e where e: "?en n = Some e" by auto
    have "compiled_node g (dom (nodes g)) n e"
      by (rule compiled_upto_Some [OF M e])
    with n e
    show "\<exists>e. ?en n = Some e \<and> required e = length (Dependencies node) \<and>
              (distinct (Dependencies node) \<longrightarrow> required e = card (set (Dependencies node))) \<and>
              fn e = Fn node"
      by (auto simp: compiled_node_def deps_of_def distinct_card) }
  { fix n node d assume "nodes g n = Some node \<and> d \<in> set (Dependencies node)"
    then have nd: "n \<in> dependents g (dom (nodes g)) d"
      by (auto simp: dependents_def deps_of_def)
    then have "?en d \<noteq> None"
      using compiled_upto_None [OF M, of d] by auto
    then obtain e where e: "?en d = Some e" by auto
    have "compiled_node g (dom (nodes g)) d e"
      by (rule compiled_upto_Some [OF M e])
    with nd e show "\<exists>e. ?en d = Some e \<and> n \<in> target_set e"
      by (auto simp: compiled_node_def) }
  { fix eks assume eks: "range_order ?en eks"
    then show "distinct (RootIds ?en eks)"
      by (simp add: RootIds_def range_order_def)
    from eks show "set (RootIds ?en eks) = {x. \<exists>e. ?en x = Some e \<and> required e = 0}"
      by (auto simp: RootIds_def range_order_def split: option.splits) }
qed

theorem Compile_topology_witness:
  "range_order (nodes diamond) [''A'', ''E'', ''C''] \<and>
   nodes diamond ''C'' = Some (NewNode ''C'' [''A'', ''E''] (Some doodad)) \<and>
   ''A'' \<in> set (Dependencies (NewNode ''C'' [''A'', ''E''] (Some doodad))) \<and>
   distinct (Dependencies (NewNode ''C'' [''A'', ''E''] (Some doodad))) \<and>
   (\<exists>e. peg_nodes (fst (CompileToExecutable diamond [''A'', ''E'', ''C''])) ''C'' = Some e \<and>
        required e = 2 \<and> fn e = Some doodad) \<and>
   (\<exists>e. peg_nodes (fst (CompileToExecutable diamond [''A'', ''E'', ''C''])) ''A'' = Some e \<and>
        ''C'' \<in> target_set e) \<and>
   range_order (peg_nodes (fst (CompileToExecutable diamond [''A'', ''E'', ''C''])))
     [''C'', ''A'', ''E''] \<and>
   {''A'', ''E''} =
     {x. \<exists>e. peg_nodes (fst (CompileToExecutable diamond [''A'', ''E'', ''C''])) x = Some e \<and>
             required e = 0}"
proof -
  let ?P = "fst (CompileToExecutable diamond [''A'', ''E'', ''C''])"
  let ?C = "NewNode ''C'' [''A'', ''E''] (Some doodad)"
  note t = Compile_topology [OF diamond_order]
  have c: "nodes diamond ''C'' = Some ?C" by (simp add: diamond_def)
  have a: "''A'' \<in> set (Dependencies ?C)" "distinct (Dependencies ?C)"
    "length (Dependencies ?C) = 2" "Fn ?C = Some doodad"
    by (simp_all add: NewNode_def)
  from t c have "\<exists>e. peg_nodes ?P ''C'' = Some e \<and> required e = length (Dependencies ?C) \<and>
      (distinct (Dependencies ?C) \<longrightarrow> required e = card (set (Dependencies ?C))) \<and> fn e = Fn ?C"
    by blast
  then have 1: "\<exists>e. peg_nodes ?P ''C'' = Some e \<and> required e = 2 \<and> fn e = Some doodad"
    unfolding a by blast
  from t c a(1) have 2: "\<exists>e. peg_nodes ?P ''A'' = Some e \<and> ''C'' \<in> target_set e"
    by blast
  from t diamond_compiled_order
  have "set (RootIds (peg_nodes ?P) [''C'', ''A'', ''E'']) =
          {x. \<exists>e. peg_nodes ?P x = Some e \<and> required e = 0}"
    by blast
  then have 3: "{''A'', ''E''} = {x. \<exists>e. peg_nodes ?P x = Some e \<and> required e = 0}"
    unfolding diamond_compiled_roots by simp
  from diamond_order c a(1,2) 1 2 diamond_compiled_order 3 show ?thesis by blast
qed

lemma same_graph_lookup:
  assumes "same_graph g1 g2"
  shows "(nodes g1 n = None \<and> nodes g2 n = None) \<or>
         (\<exists>node1 node2. nodes g1 n = Some node1 \<and> nodes g2 n = Some node2 \<and>
            Fn node1 = Fn node2 \<and> set (Dependencies node1) = set (Dependencies node2) \<and>
            distinct (Dependencies node1) \<and> distinct (Dependencies node2))"
proof (cases "nodes g1 n")
  case None
  then have "n \<notin> dom (nodes g1)" by (simp add: domIff)
  with assms have "n \<notin> dom (nodes g2)" by (simp add: same_graph_def)
  then have "nodes g2 n = None" by (simp add: domIff)
  with None show ?thesis by simp
next
  case (Some node1)
  then have "n \<in> dom (nodes g1)" by (simp add: domIff)
  with assms have "n \<in> dom (nodes g2)" by (simp add: same_graph_def)
  then obtain node2 where n2: "nodes g2 n = Some node2" by (auto simp: domIff)
  from assms have "\<forall>n node1 node2. nodes g1 n = Some node1 \<and> nodes g2 n = Some node2 \<longrightarrow>
        Name node1 = Name node2 \<and> Fn node1 = Fn node2 \<and>
        set (Dependencies node1) = set (Dependencies node2) \<and>
        distinct (Dependencies node1) \<and> distinct (Dependencies node2)"
    by (simp add: same_graph_def)
  then have "nodes g1 n = Some node1 \<and> nodes g2 n = Some node2 \<longrightarrow>
        Name node1 = Name node2 \<and> Fn node1 = Fn node2 \<and>
        set (Dependencies node1) = set (Dependencies node2) \<and>
        distinct (Dependencies node1) \<and> distinct (Dependencies node2)"
    by (elim allE)
  with Some n2 show ?thesis by simp
qed

lemma same_graph_deps:
  assumes "same_graph g1 g2"
  shows "set (deps_of g1 n) = set (deps_of g2 n)" "length (deps_of g1 n) = length (deps_of g2 n)"
proof -
  from same_graph_lookup [OF assms, of n]
  show "set (deps_of g1 n) = set (deps_of g2 n)"
    by (auto simp: deps_of_def)
  from same_graph_lookup [OF assms, of n]
  show "length (deps_of g1 n) = length (deps_of g2 n)"
  proof
    assume "nodes g1 n = None \<and> nodes g2 n = None"
    then show ?thesis by (simp add: deps_of_def)
  next
    assume "\<exists>node1 node2. nodes g1 n = Some node1 \<and> nodes g2 n = Some node2 \<and>
            Fn node1 = Fn node2 \<and> set (Dependencies node1) = set (Dependencies node2) \<and>
            distinct (Dependencies node1) \<and> distinct (Dependencies node2)"
    then obtain node1 node2 where a: "nodes g1 n = Some node1" "nodes g2 n = Some node2"
      "set (Dependencies node1) = set (Dependencies node2)"
      "distinct (Dependencies node1)" "distinct (Dependencies node2)"
      by blast
    have "length (Dependencies node1) = card (set (Dependencies node1))"
      using a(4) by (simp add: distinct_card)
    also have "\<dots> = card (set (Dependencies node2))" by (simp add: a(3))
    also have "\<dots> = length (Dependencies node2)"
      using a(5) by (simp add: distinct_card)
    finally show ?thesis using a(1,2) by (simp add: deps_of_def)
  qed
qed

lemma same_graph_dependents:
  "same_graph g1 g2 \<Longrightarrow> dependents g1 D x = dependents g2 D x"
  by (simp add: dependents_def same_graph_deps(1))

lemma same_graph_Fn:
  assumes "same_graph g1 g2"
  shows "(case nodes g1 x of None \<Rightarrow> None | Some node \<Rightarrow> Fn node)
       = (case nodes g2 x of None \<Rightarrow> None | Some node \<Rightarrow> Fn node)"
  using same_graph_lookup [OF assms, of x] by auto

lemma diamond_reordered_order: "range_order (nodes diamond_reordered) [''C'', ''E'', ''A'']"
  by (auto simp: range_order_def diamond_reordered_def)

lemma diamond_same_graph: "same_graph diamond diamond_reordered"
  unfolding same_graph_def
proof (intro conjI allI impI)
  show "dom (nodes diamond) = dom (nodes diamond_reordered)"
    by (auto simp: diamond_def diamond_reordered_def)
next
  fix n node1 node2
  assume a: "nodes diamond n = Some node1 \<and> nodes diamond_reordered n = Some node2"
  consider "n = ''A''" | "n = ''E''" | "n = ''C''" | "n \<noteq> ''A''" "n \<noteq> ''E''" "n \<noteq> ''C''"
    by blast
  then have "Name node1 = Name node2 \<and> Fn node1 = Fn node2 \<and>
    set (Dependencies node1) = set (Dependencies node2) \<and>
    distinct (Dependencies node1) \<and> distinct (Dependencies node2)"
  proof cases
    case 1
    with a have "node1 = NewNode ''A'' [] (Some doodad)" "node2 = NewNode ''A'' [] (Some doodad)"
      by (auto simp: diamond_def diamond_reordered_def)
    then show ?thesis by (simp add: NewNode_def)
  next
    case 2
    with a have "node1 = NewNode ''E'' [] (Some doodad)" "node2 = NewNode ''E'' [] (Some doodad)"
      by (auto simp: diamond_def diamond_reordered_def)
    then show ?thesis by (simp add: NewNode_def)
  next
    case 3
    with a have "node1 = NewNode ''C'' [''A'', ''E''] (Some doodad)"
      "node2 = NewNode ''C'' [''E'', ''A''] (Some doodad)"
      by (auto simp: diamond_def diamond_reordered_def)
    then show ?thesis by (auto simp: NewNode_def)
  next
    case 4
    with a show ?thesis by (simp add: diamond_def)
  qed
  then show "Name node1 = Name node2" "Fn node1 = Fn node2"
    "set (Dependencies node1) = set (Dependencies node2)"
    "distinct (Dependencies node1)" "distinct (Dependencies node2)"
    by simp_all
qed

lemma diamond_reordered_compiled_A:
  "peg_nodes (fst (CompileToExecutable diamond_reordered [''C'', ''E'', ''A''])) ''A''
     = Some \<lparr>targetIDs = Some [''C''], required = 0, fn = Some doodad\<rparr>"
  by (simp add: CompileToExecutable_def diamond_reordered_def NewNode_def compile_node_def
        GetOrCreate_def AddTargets_def put_key_def zero_ExecutableNode_def)

lemma diamond_reordered_compiled_C:
  "peg_nodes (fst (CompileToExecutable diamond_reordered [''C'', ''E'', ''A''])) ''C''
     = Some \<lparr>targetIDs = None, required = 2, fn = Some doodad\<rparr>"
  by (simp add: CompileToExecutable_def diamond_reordered_def NewNode_def compile_node_def
        GetOrCreate_def AddTargets_def put_key_def zero_ExecutableNode_def)


text \<open>
  Claim C8. Two compilations of one graph give plans with the same keys and, under each
  key, the same \<open>required\<close>, the same set of targets and the same \<open>fn\<close>: whatever the order
  in which each compilation ranges over \<open>g.nodes\<close> (\<open>ks1\<close>, \<open>ks2\<close>) and over the
  dependencies of each node (the two model values \<open>g1\<close>, \<open>g2\<close> of the graph).
\<close>

theorem Compile_twice:
  assumes k1: "range_order (nodes g1) ks1" and k2: "range_order (nodes g2) ks2"
    and same: "same_graph g1 g2"
  shows "dom (peg_nodes (fst (CompileToExecutable g1 ks1))) =
           dom (peg_nodes (fst (CompileToExecutable g2 ks2))) \<and>
         (\<forall>x e1 e2. peg_nodes (fst (CompileToExecutable g1 ks1)) x = Some e1 \<and>
                    peg_nodes (fst (CompileToExecutable g2 ks2)) x = Some e2 \<longrightarrow>
                    required e1 = required e2 \<and> target_set e1 = target_set e2 \<and>
                    fn e1 = fn e2)"
proof -
  let ?en1 = "peg_nodes (fst (CompileToExecutable g1 ks1))"
  let ?en2 = "peg_nodes (fst (CompileToExecutable g2 ks2))"
  from same have d: "dom (nodes g1) = dom (nodes g2)" by (simp add: same_graph_def)
  have M1: "compiled_upto g1 (dom (nodes g1)) ?en1" by (rule compiled_upto_Compile [OF k1])
  have M2: "compiled_upto g2 (dom (nodes g1)) ?en2"
    unfolding d by (rule compiled_upto_Compile [OF k2])
  have "\<And>x. ?en1 x = None \<longleftrightarrow> ?en2 x = None"
    by (simp add: compiled_upto_None [OF M1] compiled_upto_None [OF M2]
          same_graph_dependents [OF same])
  then have dd: "dom ?en1 = dom ?en2" by (auto simp: dom_def)
  have "\<And>x e1 e2. ?en1 x = Some e1 \<Longrightarrow> ?en2 x = Some e2 \<Longrightarrow>
          required e1 = required e2 \<and> target_set e1 = target_set e2 \<and> fn e1 = fn e2"
  proof -
    fix x e1 e2 assume "?en1 x = Some e1" "?en2 x = Some e2"
    then have "compiled_node g1 (dom (nodes g1)) x e1" "compiled_node g2 (dom (nodes g1)) x e2"
      by (simp_all add: compiled_upto_Some [OF M1] compiled_upto_Some [OF M2])
    then show "required e1 = required e2 \<and> target_set e1 = target_set e2 \<and> fn e1 = fn e2"
      unfolding compiled_node_def
      by (simp add: same_graph_dependents [OF same] same_graph_deps(2) [OF same]
            same_graph_Fn [OF same])
  qed
  with dd show ?thesis by blast
qed


theorem Compile_twice_witness:
  "range_order (nodes diamond) [''A'', ''E'', ''C''] \<and>
   range_order (nodes diamond_reordered) [''C'', ''E'', ''A''] \<and>
   same_graph diamond diamond_reordered \<and>
   Dependencies (the (nodes diamond ''C'')) = [''A'', ''E''] \<and>
   Dependencies (the (nodes diamond_reordered ''C'')) = [''E'', ''A''] \<and>
   dom (peg_nodes (fst (CompileToExecutable diamond [''A'', ''E'', ''C''])))
     = dom (peg_nodes (fst (CompileToExecutable diamond_reordered [''C'', ''E'', ''A'']))) \<and>
   (\<exists>e1 e2. peg_nodes (fst (CompileToExecutable diamond [''A'', ''E'', ''C''])) ''A'' = Some e1 \<and>
       peg_nodes (fst (CompileToExecutable diamond_reordered [''C'', ''E'', ''A''])) ''A'' = Some e2 \<and>
       required e1 = required e2 \<and> target_set e1 = target_set e2 \<and> fn e1 = fn e2 \<and>
       target_set e1 = {''C''}) \<and>
   (\<exists>e1 e2. peg_nodes (fst (CompileToExecutable diamond [''A'', ''E'', ''C''])) ''C'' = Some e1 \<and>
       peg_nodes (fst (CompileToExecutable diamond_reordered [''C'', ''E'', ''A''])) ''C'' = Some e2 \<and>
       required e1 = required e2 \<and> target_set e1 = target_set e2 \<and> fn e1 = fn e2 \<and>
       required e1 = 2)"
proof -
  let ?P1 = "fst (CompileToExecutable diamond [''A'', ''E'', ''C''])"
  let ?P2 = "fst (CompileToExecutable diamond_reordered [''C'', ''E'', ''A''])"
  note t = Compile_twice [OF diamond_order diamond_reordered_order diamond_same_graph]
  from t have d: "dom (peg_nodes ?P1) = dom (peg_nodes ?P2)" by (rule conjunct1)
  from t have r: "\<And>x e1 e2. peg_nodes ?P1 x = Some e1 \<Longrightarrow> peg_nodes ?P2 x = Some e2 \<Longrightarrow>
      required e1 = required e2 \<and> target_set e1 = target_set e2 \<and> fn e1 = fn e2"
    by blast
  have c: "Dependencies (the (nodes diamond ''C'')) = [''A'', ''E'']"
    "Dependencies (the (nodes diamond_reordered ''C'')) = [''E'', ''A'']"
    by (simp_all add: diamond_def diamond_reordered_def NewNode_def)
  have ta: "target_set \<lparr>targetIDs = Some [''C''], required = 0, fn = Some doodad\<rparr> = {''C''}"
    by (simp add: target_set_def)
  have 1: "\<exists>e1 e2. peg_nodes ?P1 ''A'' = Some e1 \<and> peg_nodes ?P2 ''A'' = Some e2 \<and>
       required e1 = required e2 \<and> target_set e1 = target_set e2 \<and> fn e1 = fn e2 \<and>
       target_set e1 = {''C''}"
    using r [OF diamond_compiled_A diamond_reordered_compiled_A] ta
      diamond_compiled_A diamond_reordered_compiled_A by blast
  have rc: "required \<lparr>targetIDs = None, required = 2, fn = Some doodad\<rparr> = 2" by simp
  have 2: "\<exists>e1 e2. peg_nodes ?P1 ''C'' = Some e1 \<and> peg_nodes ?P2 ''C'' = Some e2 \<and>
       required e1 = required e2 \<and> target_set e1 = target_set e2 \<and> fn e1 = fn e2 \<and>
       required e1 = 2"
    using r [OF diamond_compiled_C diamond_reordered_compiled_C] rc
      diamond_compiled_C diamond_reordered_compiled_C by blast
  show ?thesis
    by (intro conjI diamond_order diamond_reordered_order diamond_same_graph c d 1 2)
qed

section \<open>Properties of \<open>Sort\<close>\<close>

lemma empty_id_built: "AddAll (NewGraph ''g'') empty_id_nodes = Some empty_id_graph"
  by (simp add: empty_id_nodes_def empty_id_graph_def NewGraph_def Add_def NewNode_def
        Identifier_def Let_def)

lemma Sort_empty_id_1:
  "Sort (Suc (Suc 0)) empty_id_graph [[], ''b''] = Some (Inr [''b'', []], empty_id_graph)"
  by (simp add: Sort_def empty_id_graph_def NewNode_def)

lemma Sort_empty_id_2:
  "Sort (Suc (Suc 0)) empty_id_graph [''b'', []] = Some (Inr [''b'', []], empty_id_graph)"
  by (simp add: Sort_def empty_id_graph_def NewNode_def)

text \<open>
  Claim C2 fails on an identifier that is the empty string. \<open>visit\<close> finds the free slots
  of \<open>results\<close> by comparing them with the empty string, so that writing the empty name
  leaves the slot free, and the next name takes it: the empty name ends up last. Here
  the graph is built by two calls of \<open>Add\<close>, the node \<open>b\<close> depends on the node with the
  empty name, and for both orders of the range over \<open>g.nodes\<close> \<open>Sort\<close> returns \<open>b\<close> before
  its dependency.
\<close>

theorem Sort_empty_identifier_last:
  "AddAll (NewGraph ''g'') empty_id_nodes = Some empty_id_graph \<and>
   nodes empty_id_graph ''b'' = Some (NewNode ''b'' [[]] (Some doodad)) \<and>
   Sort (Suc (Suc 0)) empty_id_graph [[], ''b''] = Some (Inr [''b'', []], empty_id_graph) \<and>
   Sort (Suc (Suc 0)) empty_id_graph [''b'', []] = Some (Inr [''b'', []], empty_id_graph)"
  using empty_id_built Sort_empty_id_1 Sort_empty_id_2 by (simp add: empty_id_graph_def)

section \<open>Properties of \<open>run\<close>\<close>

lemma prepend_prepend: "prepend xs (prepend ys r) = prepend (xs @ ys) r"
  by (induction ys r rule: prepend.induct) simp_all

lemma prepend_Nil: "prepend [] r = r"
  by (induction "[] :: NodeID list" r rule: prepend.induct) simp_all

lemma runNode_Suc:
  "runNode (Suc k) peg x log =
     (case peg_nodes peg x of
        None \<Rightarrow> Some (Inl (NilNode x))
      | Some node \<Rightarrow>
          (case fn node of
             None \<Rightarrow> Some (Inl (NilFn x))
           | Some f \<Rightarrow> runNode_range k peg (target_list node) (log @ [x])))"
  by (simp add: target_list_def split: option.splits)

lemma runNode_range_prepend_step:
  assumes node: "\<And>x log. runNode k peg x log = prepend log (runNode k peg x [])"
  shows "runNode_range k peg ts log = prepend log (runNode_range k peg ts [])"
proof (induction ts arbitrary: log)
  case Nil
  show ?case by simp
next
  case (Cons t rest)
  show ?case
  proof (cases "runNode k peg t []")
    case None
    then show ?thesis using node [of t log] by simp
  next
    case (Some r)
    show ?thesis
    proof (cases r)
      case (Inl p)
      with Some show ?thesis using node [of t log] by simp
    next
      case (Inr tr1)
      with Some have a: "runNode k peg t log = Some (Inr (log @ tr1))"
        using node [of t log] by simp
      have "runNode_range k peg (t # rest) log = runNode_range k peg rest (log @ tr1)"
        using a by simp
      also have "\<dots> = prepend (log @ tr1) (runNode_range k peg rest [])"
        by (rule Cons.IH)
      also have "\<dots> = prepend log (prepend tr1 (runNode_range k peg rest []))"
        by (simp add: prepend_prepend)
      also have "prepend tr1 (runNode_range k peg rest []) = runNode_range k peg rest tr1"
        by (rule Cons.IH [symmetric])
      also have "runNode_range k peg rest tr1 = runNode_range k peg (t # rest) []"
        using Some Inr by simp
      finally show ?thesis .
    qed
  qed
qed

lemma runNode_prepend:
  "runNode k peg x log = prepend log (runNode k peg x [])"
proof (induction k arbitrary: x log)
  case 0
  show ?case by simp
next
  case (Suc k)
  have r: "\<And>ts log. runNode_range k peg ts log = prepend log (runNode_range k peg ts [])"
    by (rule runNode_range_prepend_step) (rule Suc.IH)
  show ?case
  proof (cases "peg_nodes peg x")
    case None
    then show ?thesis by simp
  next
    case (Some node)
    show ?thesis
    proof (cases "fn node")
      case None
      with Some show ?thesis by simp
    next
      case (Some f)
      have "runNode (Suc k) peg x log = runNode_range k peg (target_list node) (log @ [x])"
        using \<open>peg_nodes peg x = Some node\<close> Some by (simp add: target_list_def)
      also have "\<dots> = prepend (log @ [x]) (runNode_range k peg (target_list node) [])"
        by (rule r)
      also have "\<dots> = prepend log (prepend [x] (runNode_range k peg (target_list node) []))"
        by (simp add: prepend_prepend)
      also have "prepend [x] (runNode_range k peg (target_list node) [])
                   = runNode_range k peg (target_list node) [x]"
        by (rule r [symmetric])
      also have "runNode_range k peg (target_list node) [x] = runNode (Suc k) peg x []"
        using \<open>peg_nodes peg x = Some node\<close> Some by (simp add: target_list_def)
      finally show ?thesis .
    qed
  qed
qed

lemma runNode_range_prepend:
  "runNode_range k peg ts log = prepend log (runNode_range k peg ts [])"
  by (rule runNode_range_prepend_step) (rule runNode_prepend)

lemma prepend_Inr:
  "prepend log r = Some (Inr tr) \<longleftrightarrow> (\<exists>tr'. r = Some (Inr tr') \<and> tr = log @ tr')"
  by (induction log r rule: prepend.induct) auto

lemma runNode_Suc_trace:
  "runNode (Suc k) peg x [] = Some (Inr tr) \<longleftrightarrow>
     (\<exists>node f tr'. peg_nodes peg x = Some node \<and> fn node = Some f \<and>
        runNode_range k peg (target_list node) [] = Some (Inr tr') \<and> tr = x # tr')"
proof (cases "peg_nodes peg x")
  case None
  then show ?thesis by simp
next
  case (Some node)
  show ?thesis
  proof (cases "fn node")
    case None
    with Some show ?thesis by simp
  next
    case (Some f)
    have "runNode (Suc k) peg x [] = prepend [x] (runNode_range k peg (target_list node) [])"
      using \<open>peg_nodes peg x = Some node\<close> Some
        runNode_range_prepend [of k peg "target_list node" "[x]"]
      by (simp add: target_list_def)
    then show ?thesis
      using \<open>peg_nodes peg x = Some node\<close> Some by (simp add: prepend_Inr)
  qed
qed

lemma runNode_range_Cons_trace:
  "runNode_range k peg (t # rest) [] = Some (Inr tr) \<longleftrightarrow>
     (\<exists>tr1 tr2. runNode k peg t [] = Some (Inr tr1) \<and>
        runNode_range k peg rest [] = Some (Inr tr2) \<and> tr = tr1 @ tr2)"
proof (cases "runNode k peg t []")
  case None
  then show ?thesis by simp
next
  case (Some r)
  show ?thesis
  proof (cases r)
    case (Inl p)
    with Some show ?thesis by simp
  next
    case (Inr tr1)
    have "runNode_range k peg (t # rest) [] = prepend tr1 (runNode_range k peg rest [])"
      using Some Inr runNode_range_prepend [of k peg rest tr1] by simp
    then show ?thesis using Some Inr by (simp add: prepend_Inr)
  qed
qed

lemma count_list_distinct:
  "distinct xs \<Longrightarrow> count_list xs y = (if y \<in> set xs then 1 else 0)"
  by (induction xs) auto

lemma plan_of_targets:
  assumes "plan_of g peg" "peg_nodes peg x = Some node"
  shows "distinct (target_list node)" "n \<in> set (target_list node) \<longleftrightarrow> x \<in> set (deps_of g n)"
proof -
  from assms have c: "compiled_node g (dom (nodes g)) x node"
    unfolding plan_of_def by (rule compiled_upto_Some)
  then show "distinct (target_list node)"
    unfolding compiled_node_def target_list_def by (cases "targetIDs node") simp_all
  from c have "target_set node = dependents g (dom (nodes g)) x"
    unfolding compiled_node_def by simp
  moreover have "target_set node = set (target_list node)"
    unfolding target_set_def target_list_def by (cases "targetIDs node") simp_all
  moreover have "n \<in> dependents g (dom (nodes g)) x \<longleftrightarrow> x \<in> set (deps_of g n)"
    unfolding dependents_def deps_of_def by (cases "nodes g n") auto
  ultimately show "n \<in> set (target_list node) \<longleftrightarrow> x \<in> set (deps_of g n)" by simp
qed

lemma count_range_step:
  assumes node: "\<And>x tr. runNode k peg x [] = Some (Inr tr) \<Longrightarrow>
      count_list tr n = (if x = n then 1 else 0) + (\<Sum>d\<in>set (deps_of g n). count_list tr d)"
  shows "runNode_range k peg ts [] = Some (Inr tr) \<Longrightarrow>
      count_list tr n = count_list ts n + (\<Sum>d\<in>set (deps_of g n). count_list tr d)"
proof (induction ts arbitrary: tr)
  case Nil
  then show ?case by simp
next
  case (Cons t rest)
  from Cons.prems obtain tr1 tr2 where
    t1: "runNode k peg t [] = Some (Inr tr1)" and
    t2: "runNode_range k peg rest [] = Some (Inr tr2)" and tr: "tr = tr1 @ tr2"
    unfolding runNode_range_Cons_trace by blast
  have 1: "count_list tr1 n = (if t = n then 1 else 0) + (\<Sum>d\<in>set (deps_of g n). count_list tr1 d)"
    by (rule node [OF t1])
  have 2: "count_list tr2 n = count_list rest n + (\<Sum>d\<in>set (deps_of g n). count_list tr2 d)"
    by (rule Cons.IH [OF t2])
  have s: "(\<Sum>d\<in>set (deps_of g n). count_list tr d) =
        (\<Sum>d\<in>set (deps_of g n). count_list tr1 d) + (\<Sum>d\<in>set (deps_of g n). count_list tr2 d)"
    unfolding tr by (simp add: sum.distrib)
  have "count_list tr n = count_list tr1 n + count_list tr2 n"
    unfolding tr by simp
  with 1 2 s show ?case by simp
qed

lemma count_runNode:
  assumes p: "plan_of g peg"
  shows "runNode k peg x [] = Some (Inr tr) \<Longrightarrow>
      count_list tr n = (if x = n then 1 else 0) + (\<Sum>d\<in>set (deps_of g n). count_list tr d)"
proof (induction k arbitrary: x tr)
  case 0
  then show ?case by simp
next
  case (Suc k)
  from Suc.prems obtain node f tr' where
    nd: "peg_nodes peg x = Some node" and
    r: "runNode_range k peg (target_list node) [] = Some (Inr tr')" and tr: "tr = x # tr'"
    unfolding runNode_Suc_trace by blast
  have "count_list tr' n = count_list (target_list node) n
          + (\<Sum>d\<in>set (deps_of g n). count_list tr' d)"
    by (rule count_range_step [OF Suc.IH r])
  moreover have "count_list (target_list node) n = (if x \<in> set (deps_of g n) then 1 else 0)"
    using plan_of_targets(1) [OF p nd] plan_of_targets(2) [OF p nd, of n]
    by (simp add: count_list_distinct)
  moreover have "(\<Sum>d\<in>set (deps_of g n). count_list tr d) =
      (if x \<in> set (deps_of g n) then 1 else 0) + (\<Sum>d\<in>set (deps_of g n). count_list tr' d)"
  proof -
    have "(\<Sum>d\<in>set (deps_of g n). count_list tr d) =
        (\<Sum>d\<in>set (deps_of g n). (if x = d then 1 else 0) + count_list tr' d)"
      unfolding tr by (intro sum.cong) auto
    also have "\<dots> = (\<Sum>d\<in>set (deps_of g n). (if x = d then 1 else 0))
                      + (\<Sum>d\<in>set (deps_of g n). count_list tr' d)"
      by (rule sum.distrib)
    also have "(\<Sum>d\<in>set (deps_of g n). (if x = d then 1 else 0 :: nat))
                 = (if x \<in> set (deps_of g n) then 1 else 0)"
      by (simp add: sum.delta')
    finally show ?thesis .
  qed
  moreover have "count_list tr n = (if x = n then 1 else 0) + count_list tr' n"
    unfolding tr by simp
  ultimately show ?case by simp
qed

lemma count_runNode_range:
  assumes "plan_of g peg" "runNode_range k peg ts [] = Some (Inr tr)"
  shows "count_list tr n = count_list ts n + (\<Sum>d\<in>set (deps_of g n). count_list tr d)"
  by (rule count_range_step [OF count_runNode [OF assms(1)] assms(2)])

lemma runNode_range_total_step:
  assumes "\<And>t log. t \<in> set ts \<Longrightarrow> runNode k peg t log \<noteq> None"
  shows "runNode_range k peg ts log \<noteq> None"
  using assms
proof (induction ts arbitrary: log)
  case Nil
  show ?case by simp
next
  case (Cons t rest)
  have "runNode k peg t log \<noteq> None" by (rule Cons.prems) simp
  then obtain res where res: "runNode k peg t log = Some res" by auto
  show ?case
  proof (cases res)
    case (Inl p)
    with res show ?thesis by simp
  next
    case (Inr log')
    have "runNode_range k peg rest log' \<noteq> None"
      by (rule Cons.IH) (rule Cons.prems, simp)
    with res Inr show ?thesis by simp
  qed
qed

lemma runNode_total:
  assumes rk: "\<forall>x node t. peg_nodes peg x = Some node \<and> t \<in> set (target_list node)
                 \<longrightarrow> r x < r t \<and> r t < b"
  shows "r x < b \<Longrightarrow> b - r x \<le> k \<Longrightarrow> runNode k peg x log \<noteq> None"
proof (induction k arbitrary: x log)
  case 0
  then show ?case by simp
next
  case (Suc k)
  show ?case
  proof (cases "peg_nodes peg x")
    case None
    then show ?thesis by simp
  next
    case (Some node)
    show ?thesis
    proof (cases "fn node")
      case None
      with Some show ?thesis by simp
    next
      case (Some f)
      have "runNode_range k peg (target_list node) (log @ [x]) \<noteq> None"
      proof (rule runNode_range_total_step)
        fix t log' assume t: "t \<in> set (target_list node)"
        from rk \<open>peg_nodes peg x = Some node\<close> t have "r x < r t" "r t < b" by blast+
        with Suc.prems have "b - r t \<le> k" by arith
        with \<open>r t < b\<close> show "runNode k peg t log' \<noteq> None" by (rule Suc.IH)
      qed
      with \<open>peg_nodes peg x = Some node\<close> Some show ?thesis
        by (simp add: target_list_def)
    qed
  qed
qed

lemma runNode_range_safe_step:
  assumes "\<And>t log. t \<in> set ts \<Longrightarrow> runNode k peg t log \<noteq> Some (Inl q)"
  shows "runNode_range k peg ts log \<noteq> Some (Inl q)"
  using assms
proof (induction ts arbitrary: log)
  case Nil
  show ?case by simp
next
  case (Cons t rest)
  have t: "runNode k peg t log \<noteq> Some (Inl q)" by (rule Cons.prems) simp
  have r: "\<And>log'. runNode_range k peg rest log' \<noteq> Some (Inl q)"
    by (rule Cons.IH) (rule Cons.prems, simp)
  show ?case
  proof (cases "runNode k peg t log")
    case None
    then show ?thesis by simp
  next
    case (Some res)
    with t r show ?thesis by (cases res) auto
  qed
qed

lemma runNode_no_NilNode:
  assumes cl: "\<forall>x node t. peg_nodes peg x = Some node \<and> t \<in> set (target_list node)
                 \<longrightarrow> peg_nodes peg t \<noteq> None"
  shows "peg_nodes peg x \<noteq> None \<Longrightarrow> runNode k peg x log \<noteq> Some (Inl (NilNode p))"
proof (induction k arbitrary: x log)
  case 0
  show ?case by simp
next
  case (Suc k)
  from Suc.prems obtain node where nd: "peg_nodes peg x = Some node" by auto
  show ?case
  proof (cases "fn node")
    case None
    with nd show ?thesis by simp
  next
    case (Some f)
    have "runNode_range k peg (target_list node) (log @ [x]) \<noteq> Some (Inl (NilNode p))"
    proof (rule runNode_range_safe_step)
      fix t log' assume "t \<in> set (target_list node)"
      with cl nd have "peg_nodes peg t \<noteq> None" by blast
      then show "runNode k peg t log' \<noteq> Some (Inl (NilNode p))"
        by (rule Suc.IH)
    qed
    with nd Some show ?thesis by (simp add: target_list_def)
  qed
qed

lemma runNode_no_NilFn:
  assumes cl: "\<forall>x node t. peg_nodes peg x = Some node \<and> t \<in> set (target_list node)
                 \<longrightarrow> peg_nodes peg t \<noteq> None"
    and fns: "\<forall>x node. peg_nodes peg x = Some node \<longrightarrow> fn node \<noteq> None"
  shows "peg_nodes peg x \<noteq> None \<Longrightarrow> runNode k peg x log \<noteq> Some (Inl (NilFn p))"
proof (induction k arbitrary: x log)
  case 0
  show ?case by simp
next
  case (Suc k)
  from Suc.prems obtain node where nd: "peg_nodes peg x = Some node" by auto
  from fns nd have "fn node \<noteq> None" by blast
  then obtain f where f: "fn node = Some f" by auto
  have "runNode_range k peg (target_list node) (log @ [x]) \<noteq> Some (Inl (NilFn p))"
  proof (rule runNode_range_safe_step)
    fix t log' assume "t \<in> set (target_list node)"
    with cl nd have "peg_nodes peg t \<noteq> None" by blast
    then show "runNode k peg t log' \<noteq> Some (Inl (NilFn p))"
      by (rule Suc.IH)
  qed
  with nd f show ?case by (simp add: target_list_def)
qed

lemma rankedD:
  assumes "ranked g r b" "nodes g n = Some node"
  shows "r n < b" "d \<in> set (Dependencies node) \<Longrightarrow> nodes g d \<noteq> None \<and> r d < r n"
  using assms unfolding ranked_def by blast+

lemma Add_Inr:
  assumes "Add g node = (Inr nid, g')"
  shows "nid = Identifier node" "nodes g nid = None"
    "\<forall>d \<in> set (Dependencies node). nodes g d \<noteq> None"
    "g' = g\<lparr>nodes := (nodes g)(nid \<mapsto> node)\<rparr>"
proof -
  from assms have a: "nodes g (Identifier node) = None"
    "missing_dependency (nodes g) (Dependencies node) = None"
    by (auto simp: Add_def Let_def split: if_splits option.splits)
  from assms show "nid = Identifier node"
    by (auto simp: Add_def Let_def split: if_splits option.splits)
  with a show "nodes g nid = None" by simp
  from a(2) show "\<forall>d \<in> set (Dependencies node). nodes g d \<noteq> None"
    by (simp add: missing_dependency_None)
  from assms show "g' = g\<lparr>nodes := (nodes g)(nid \<mapsto> node)\<rparr>"
    by (auto simp: Add_def Let_def split: if_splits option.splits)
qed

lemma Add_ranked:
  assumes r: "ranked g r b" and a: "Add g node = (Inr nid, g')"
  shows "ranked g' (r(nid := b)) (Suc b)"
  unfolding ranked_def
proof (intro allI impI)
  fix n nd assume n: "nodes g' n = Some nd"
  note A = Add_Inr [OF a]
  show "(r(nid := b)) n < Suc b \<and>
        (\<forall>d \<in> set (Dependencies nd). nodes g' d \<noteq> None \<and> (r(nid := b)) d < (r(nid := b)) n)"
  proof (cases "n = nid")
    case True
    with n A(4) have nd: "nd = node" by simp
    have "\<And>d. d \<in> set (Dependencies node) \<Longrightarrow> nodes g' d \<noteq> None \<and> (r(nid := b)) d < b"
    proof -
      fix d assume d: "d \<in> set (Dependencies node)"
      with A(3) obtain dn where dn: "nodes g d = Some dn" by auto
      with A(2) have "d \<noteq> nid" by auto
      with dn rankedD(1) [OF r dn] A(4) show "nodes g' d \<noteq> None \<and> (r(nid := b)) d < b"
        by simp
    qed
    with True nd show ?thesis by simp
  next
    case False
    with n A(4) have n0: "nodes g n = Some nd" by simp
    have "\<And>d. d \<in> set (Dependencies nd) \<Longrightarrow> nodes g' d \<noteq> None \<and> (r(nid := b)) d < r n"
    proof -
      fix d assume d: "d \<in> set (Dependencies nd)"
      from rankedD(2) [OF r n0 d] obtain dn where dn: "nodes g d = Some dn" and lt: "r d < r n"
        by auto
      with A(2) have "d \<noteq> nid" by auto
      with dn lt A(4) show "nodes g' d \<noteq> None \<and> (r(nid := b)) d < r n" by simp
    qed
    with False rankedD(1) [OF r n0] show ?thesis by simp
  qed
qed

lemma AddAll_ranked:
  "ranked g0 r b \<Longrightarrow> AddAll g0 ns = Some g \<Longrightarrow> \<exists>r'. ranked g r' (b + length ns)"
proof (induction ns arbitrary: g0 r b)
  case Nil
  then show ?case by auto
next
  case (Cons node rest)
  from Cons.prems(2) obtain nid g1 where a: "Add g0 node = (Inr nid, g1)"
    and rest: "AddAll g1 rest = Some g"
    by (auto split: prod.splits sum.splits)
  from Cons.IH [OF Add_ranked [OF Cons.prems(1) a] rest] show ?case by simp
qed

lemma AddAll_Fn:
  "AddAll g0 ns = Some g \<Longrightarrow> nodes g n = Some nd \<Longrightarrow>
     nodes g0 n = Some nd \<or> nd \<in> set ns"
proof (induction ns arbitrary: g0)
  case Nil
  then show ?case by simp
next
  case (Cons node rest)
  from Cons.prems(1) obtain nid g1 where a: "Add g0 node = (Inr nid, g1)"
    and rest: "AddAll g1 rest = Some g"
    by (auto split: prod.splits sum.splits)
  from Cons.IH [OF rest Cons.prems(2)] have "nodes g1 n = Some nd \<or> nd \<in> set rest" .
  then show ?case
  proof
    assume "nodes g1 n = Some nd"
    with Add_Inr(4) [OF a] show ?thesis by (cases "n = nid") auto
  next
    assume "nd \<in> set rest"
    then show ?thesis by simp
  qed
qed

lemma NewGraph_ranked: "ranked (NewGraph nm) (\<lambda>_. 0) 0"
  by (simp add: ranked_def NewGraph_def)

lemma built_ranked:
  assumes "AddAll (NewGraph nm) ns = Some g"
  shows "\<exists>r. ranked g r (length ns)"
  using AddAll_ranked [OF NewGraph_ranked assms] by simp

lemma built_Fn:
  assumes "AddAll (NewGraph nm) ns = Some g" "nodes g n = Some nd"
  shows "nd \<in> set ns"
  using AddAll_Fn [OF assms] by (simp add: NewGraph_def)

lemma plan_of_Compile:
  "range_order (nodes g) ks \<Longrightarrow> plan_of g (fst (CompileToExecutable g ks))"
  unfolding plan_of_def by (rule compiled_upto_Compile)

lemma deps_of_mem:
  "x \<in> set (deps_of g t) \<longleftrightarrow> (\<exists>nt. nodes g t = Some nt \<and> x \<in> set (Dependencies nt))"
  unfolding deps_of_def by (cases "nodes g t") simp_all

lemma plan_ranked_targets:
  assumes p: "plan_of g peg" and r: "ranked g r b"
    and nd: "peg_nodes peg x = Some node" and t: "t \<in> set (target_list node)"
  shows "r x < r t" "r t < b" "nodes g t \<noteq> None"
proof -
  from plan_of_targets(2) [OF p nd, of t] t have "x \<in> set (deps_of g t)" by simp
  then obtain nt where nt: "nodes g t = Some nt" and x: "x \<in> set (Dependencies nt)"
    unfolding deps_of_mem by blast
  from rankedD(2) [OF r nt x] show "r x < r t" by simp
  from rankedD(1) [OF r nt] show "r t < b" .
  from nt show "nodes g t \<noteq> None" by simp
qed

lemma plan_ranked_dom:
  assumes p: "plan_of g peg" and r: "ranked g r b"
  shows "peg_nodes peg x \<noteq> None \<longleftrightarrow> nodes g x \<noteq> None"
proof -
  have n: "peg_nodes peg x = None \<longleftrightarrow> x \<notin> dom (nodes g) \<and> dependents g (dom (nodes g)) x = {}"
    using p unfolding plan_of_def by (rule compiled_upto_None)
  have "dependents g (dom (nodes g)) x \<noteq> {} \<Longrightarrow> nodes g x \<noteq> None"
  proof -
    assume "dependents g (dom (nodes g)) x \<noteq> {}"
    then obtain m where "x \<in> set (deps_of g m)" unfolding dependents_def by blast
    then obtain nm where nm: "nodes g m = Some nm" and x: "x \<in> set (Dependencies nm)"
      unfolding deps_of_mem by blast
    from rankedD(2) [OF r nm x] show ?thesis by simp
  qed
  with n show ?thesis by (auto simp: domIff)
qed

lemma plan_node_fields:
  assumes p: "plan_of g peg" and nd: "peg_nodes peg x = Some node" and g: "nodes g x = Some gn"
  shows "fn node = Fn gn" "required node = length (Dependencies gn)"
proof -
  from p nd have "compiled_node g (dom (nodes g)) x node"
    unfolding plan_of_def by (rule compiled_upto_Some)
  with g show "fn node = Fn gn" "required node = length (Dependencies gn)"
    unfolding compiled_node_def deps_of_def by (simp_all add: domI)
qed

lemma run_built_returns:
  assumes p: "plan_of g peg" and r: "ranked g r b"
    and fns: "\<forall>n nd. nodes g n = Some nd \<longrightarrow> Fn nd \<noteq> None"
    and fuel: "b \<le> fuel"
  shows "\<exists>log. runNode_range fuel peg (RootIds (peg_nodes peg) eks) [] = Some (Inr log)"
proof -
  let ?roots = "RootIds (peg_nodes peg) eks"
  have cl: "\<forall>x node t. peg_nodes peg x = Some node \<and> t \<in> set (target_list node)
                 \<longrightarrow> peg_nodes peg t \<noteq> None"
    using plan_ranked_targets(3) [OF p r] plan_ranked_dom [OF p r] by blast
  have rk: "\<forall>x node t. peg_nodes peg x = Some node \<and> t \<in> set (target_list node)
                 \<longrightarrow> r x < r t \<and> r t < b"
    using plan_ranked_targets(1,2) [OF p r] by blast
  have pf: "\<forall>x node. peg_nodes peg x = Some node \<longrightarrow> fn node \<noteq> None"
  proof (intro allI impI)
    fix x node assume nd: "peg_nodes peg x = Some node"
    then have "nodes g x \<noteq> None" using plan_ranked_dom [OF p r, of x] by simp
    then obtain gn where gn: "nodes g x = Some gn" by auto
    from fns gn have "Fn gn \<noteq> None" by blast
    with plan_node_fields(1) [OF p nd gn] show "fn node \<noteq> None" by simp
  qed
  have root: "\<And>x. x \<in> set ?roots \<Longrightarrow> peg_nodes peg x \<noteq> None"
    by (auto simp: RootIds_def split: option.splits)
  have rb: "\<And>x. x \<in> set ?roots \<Longrightarrow> r x < b"
  proof -
    fix x assume "x \<in> set ?roots"
    from root [OF this] have "nodes g x \<noteq> None" using plan_ranked_dom [OF p r, of x] by simp
    then obtain gn where "nodes g x = Some gn" by auto
    from rankedD(1) [OF r this] show "r x < b" .
  qed
  have tot: "runNode_range fuel peg ?roots [] \<noteq> None"
  proof (rule runNode_range_total_step)
    fix t log assume t: "t \<in> set ?roots"
    have "b - r t \<le> fuel" using fuel by arith
    with rb [OF t] show "runNode fuel peg t log \<noteq> None"
      by (rule runNode_total [OF rk])
  qed
  have ok: "\<And>q. runNode_range fuel peg ?roots [] \<noteq> Some (Inl q)"
  proof -
    fix q
    show "runNode_range fuel peg ?roots [] \<noteq> Some (Inl q)"
    proof (rule runNode_range_safe_step)
      fix t log assume t: "t \<in> set ?roots"
      show "runNode fuel peg t log \<noteq> Some (Inl q)"
      proof (cases q)
        case (NilNode y)
        show ?thesis unfolding NilNode
          by (rule runNode_no_NilNode [OF cl root [OF t]])
      next
        case (NilFn y)
        show ?thesis unfolding NilFn
          by (rule runNode_no_NilFn [OF cl pf root [OF t]])
      qed
    qed
  qed
  from tot obtain res where res: "runNode_range fuel peg ?roots [] = Some res" by auto
  with ok show ?thesis by (cases res) auto
qed

lemma run_built_count:
  assumes p: "plan_of g peg" and r: "ranked g r b"
    and eks: "range_order (peg_nodes peg) eks"
    and log: "runNode_range fuel peg (RootIds (peg_nodes peg) eks) [] = Some (Inr log)"
    and n: "nodes g n = Some nd"
  shows "count_list log n =
           (if Dependencies nd = [] then 1 else (\<Sum>d\<in>set (Dependencies nd). count_list log d))"
proof -
  let ?roots = "RootIds (peg_nodes peg) eks"
  have c: "count_list log n = count_list ?roots n + (\<Sum>d\<in>set (deps_of g n). count_list log d)"
    by (rule count_runNode_range [OF p log])
  have d: "deps_of g n = Dependencies nd" using n by (simp add: deps_of_def)
  from n have "peg_nodes peg n \<noteq> None" using plan_ranked_dom [OF p r, of n] by simp
  then obtain node where node: "peg_nodes peg n = Some node" by auto
  from node have "n \<in> set eks" using eks by (auto simp: range_order_def)
  with node have "n \<in> set ?roots \<longleftrightarrow> required node = 0" by (simp add: RootIds_def)
  also have "\<dots> \<longleftrightarrow> Dependencies nd = []"
    using plan_node_fields(2) [OF p node n] by simp
  finally have m: "n \<in> set ?roots \<longleftrightarrow> Dependencies nd = []" .
  have "distinct ?roots" using eks by (simp add: RootIds_def range_order_def)
  then have "count_list ?roots n = (if Dependencies nd = [] then 1 else 0)"
    using m by (simp add: count_list_distinct)
  with c d show ?thesis by simp
qed

lemma plan_readingD:
  assumes "plan_reading peg peg'"
  shows "(peg_nodes peg x = None \<and> peg_nodes peg' x = None) \<or>
          (\<exists>e e'. peg_nodes peg x = Some e \<and> peg_nodes peg' x = Some e' \<and>
             required e = required e' \<and> fn e = fn e' \<and>
             (targetIDs e = None \<longleftrightarrow> targetIDs e' = None) \<and>
             target_set e = target_set e' \<and> distinct (target_list e))"
  using assms unfolding plan_reading_def by (rule allE)

lemma plan_of_reading:
  assumes p: "plan_of g peg'" and rd: "plan_reading peg peg'"
  shows "plan_of g peg"
  unfolding plan_of_def compiled_upto_def
proof (intro allI conjI impI)
  fix x
  have n': "peg_nodes peg' x = None \<longleftrightarrow> x \<notin> dom (nodes g) \<and> dependents g (dom (nodes g)) x = {}"
    using p unfolding plan_of_def by (rule compiled_upto_None)
  from plan_readingD [OF rd, of x]
  show "peg_nodes peg x = None \<longleftrightarrow> x \<notin> dom (nodes g) \<and> dependents g (dom (nodes g)) x = {}"
  proof (elim disjE exE conjE)
    assume "peg_nodes peg x = None" "peg_nodes peg' x = None"
    with n' show ?thesis by simp
  next
    fix e e' assume "peg_nodes peg x = Some e" "peg_nodes peg' x = Some e'"
    with n' show ?thesis by simp
  qed
  fix e assume e: "peg_nodes peg x = Some e"
  from plan_readingD [OF rd, of x]
  show "compiled_node g (dom (nodes g)) x e"
  proof (elim disjE exE conjE)
    assume "peg_nodes peg x = None"
    with e show ?thesis by simp
  next
    fix e1 e' assume a: "peg_nodes peg x = Some e1" "peg_nodes peg' x = Some e'"
      "required e1 = required e'" "fn e1 = fn e'"
      "(targetIDs e1 = None) = (targetIDs e' = None)"
      "target_set e1 = target_set e'" "distinct (target_list e1)"
    with e have e1: "e1 = e" by simp
    from p a(2) have c: "compiled_node g (dom (nodes g)) x e'"
      unfolding plan_of_def by (rule compiled_upto_Some)
    have "\<forall>ts. targetIDs e = Some ts \<longrightarrow> distinct ts"
      using a(7) unfolding e1 by (auto simp: target_list_def)
    with c a(3-6) show ?thesis unfolding e1 compiled_node_def by simp
  qed
qed

lemma plan_reading_self:
  assumes p: "plan_of g peg"
  shows "plan_reading peg peg"
  unfolding plan_reading_def
proof
  fix x
  show "(peg_nodes peg x = None \<and> peg_nodes peg x = None) \<or>
          (\<exists>e e'. peg_nodes peg x = Some e \<and> peg_nodes peg x = Some e' \<and>
             required e = required e' \<and> fn e = fn e' \<and>
             (targetIDs e = None \<longleftrightarrow> targetIDs e' = None) \<and>
             target_set e = target_set e' \<and> distinct (target_list e))"
  proof (cases "peg_nodes peg x")
    case None
    then show ?thesis by simp
  next
    case (Some e)
    from plan_of_targets(1) [OF p Some] Some show ?thesis by simp
  qed
qed

lemma compiled_plan_of:
  assumes "compiled_plan g peg"
  shows "plan_of g peg"
proof -
  from assms obtain ks where ks: "range_order (nodes g) ks"
    and rd: "plan_reading peg (fst (CompileToExecutable g ks))"
    unfolding compiled_plan_def by blast
  from plan_of_reading [OF plan_of_Compile [OF ks] rd] show ?thesis .
qed

lemma compiled_plan_Compile:
  assumes "range_order (nodes g) ks"
  shows "compiled_plan g (fst (CompileToExecutable g ks))"
  unfolding compiled_plan_def
  using assms plan_reading_self [OF plan_of_Compile [OF assms]] by blast



lemma target_set_list: "target_set e = set (target_list e)"
  unfolding target_set_def target_list_def by (cases "targetIDs e") simp_all

lemma RootIds_keys: "x \<in> set (RootIds en eks) \<Longrightarrow> en x \<noteq> None"
  by (auto simp: RootIds_def split: option.splits)

lemma plan_ranked_closed:
  assumes p: "plan_of g peg" and r: "ranked g r b"
    and nd: "peg_nodes peg x = Some node" and t: "t \<in> set (target_list node)"
  shows "peg_nodes peg t \<noteq> None"
  using plan_ranked_targets(3) [OF p r nd t] plan_ranked_dom [OF p r, of t] by simp

lemma run_total:
  assumes p: "plan_of g peg" and r: "ranked g r b" and fuel: "b \<le> fuel"
  shows "runNode_range fuel peg (RootIds (peg_nodes peg) eks) log \<noteq> None"
proof (rule runNode_range_total_step)
  fix t log' assume t: "t \<in> set (RootIds (peg_nodes peg) eks)"
  from RootIds_keys [OF t] have "nodes g t \<noteq> None" using plan_ranked_dom [OF p r, of t] by simp
  then obtain gn where "nodes g t = Some gn" by auto
  from rankedD(1) [OF r this] have rb: "r t < b" .
  have "b - r t \<le> fuel" using fuel by arith
  have rk: "\<forall>x node t. peg_nodes peg x = Some node \<and> t \<in> set (target_list node)
                 \<longrightarrow> r x < r t \<and> r t < b"
    using plan_ranked_targets(1,2) [OF p r] by blast
  from rb \<open>b - r t \<le> fuel\<close> show "runNode fuel peg t log' \<noteq> None"
    by (rule runNode_total [OF rk])
qed

lemma same_but_workD:
  assumes "same_but_work peg1 peg2"
  shows "(peg_nodes peg1 x = None \<and> peg_nodes peg2 x = None) \<or>
          (\<exists>e1 e2. peg_nodes peg1 x = Some e1 \<and> peg_nodes peg2 x = Some e2 \<and>
             targetIDs e1 = targetIDs e2 \<and> required e1 = required e2 \<and>
             (fn e1 = None \<longleftrightarrow> fn e2 = None))"
  using assms unfolding same_but_work_def by (rule allE)

lemma runNode_range_cong_step:
  assumes "\<And>t log. runNode k peg1 t log = runNode k peg2 t log"
  shows "runNode_range k peg1 ts log = runNode_range k peg2 ts log"
  by (induction ts arbitrary: log) (simp_all add: assms split: option.splits sum.splits)

lemma runNode_same_but_work:
  assumes s: "same_but_work peg1 peg2"
  shows "runNode k peg1 x log = runNode k peg2 x log"
proof (induction k arbitrary: x log)
  case 0
  show ?case by simp
next
  case (Suc k)
  have r: "\<And>ts log. runNode_range k peg1 ts log = runNode_range k peg2 ts log"
    by (rule runNode_range_cong_step) (rule Suc.IH)
  from same_but_workD [OF s, of x] show ?case
  proof (elim disjE exE conjE)
    assume "peg_nodes peg1 x = None" "peg_nodes peg2 x = None"
    then show ?thesis by simp
  next
    fix e1 e2 assume a: "peg_nodes peg1 x = Some e1" "peg_nodes peg2 x = Some e2"
      "targetIDs e1 = targetIDs e2" "(fn e1 = None) = (fn e2 = None)"
    show ?thesis
    proof (cases "fn e1")
      case None
      with a have "fn e2 = None" by simp
      with None a show ?thesis by simp
    next
      case (Some f1)
      with a obtain f2 where "fn e2 = Some f2" by auto
      with Some a r show ?thesis by simp
    qed
  qed
qed

lemma RootIds_same_but_work:
  assumes s: "same_but_work peg1 peg2"
  shows "RootIds (peg_nodes peg1) eks = RootIds (peg_nodes peg2) eks"
  unfolding RootIds_def
proof (rule filter_cong [OF refl])
  fix x
  from same_but_workD [OF s, of x]
  show "(case peg_nodes peg1 x of None \<Rightarrow> False | Some node \<Rightarrow> required node = 0) =
        (case peg_nodes peg2 x of None \<Rightarrow> False | Some node \<Rightarrow> required node = 0)"
    by auto
qed

lemma chain_built: "AddAll (NewGraph ''chain'') (chain_nodes f) = Some (chain f)"
  by (simp add: chain_nodes_def chain_def NewGraph_def Add_def NewNode_def Identifier_def Let_def)

lemma chain_order: "range_order (nodes (chain f)) [''A'', ''B'']"
  by (auto simp: range_order_def chain_def)

lemma chain_compiled:
  "peg_nodes (fst (CompileToExecutable (chain f) [''A'', ''B''])) =
     [''A'' \<mapsto> \<lparr>targetIDs = Some [''B''], required = 0, fn = Some f\<rparr>,
      ''B'' \<mapsto> \<lparr>targetIDs = None, required = 1, fn = Some doodad\<rparr>]"
  by (simp add: CompileToExecutable_def chain_def NewNode_def compile_node_def
        GetOrCreate_def AddTargets_def put_key_def zero_ExecutableNode_def)

lemma chain_compiled_order:
  "range_order (peg_nodes (fst (CompileToExecutable (chain f) [''A'', ''B'']))) [''B'', ''A'']"
  unfolding chain_compiled by (auto simp: range_order_def)

lemma run_chain:
  "run (Suc (Suc 0)) (fst (CompileToExecutable (chain f) [''A'', ''B''])) [''B'', ''A'']
     = Some (Inr [''A'', ''B''])"
  by (simp add: run_def RootIds_def chain_compiled)

lemma chain_same_but_work:
  "same_but_work (fst (CompileToExecutable (chain f) [''A'', ''B'']))
     (fst (CompileToExecutable (chain f') [''A'', ''B'']))"
  unfolding same_but_work_def chain_compiled by simp

lemma failing_work_fails: "failing_work ''A'' = Some (NodeDoesNotExist ''A'')"
  by (simp add: failing_work_def)

lemma chain_fields:
  "Fn (the (nodes (chain f) ''A'')) = Some f"
  "Dependencies (the (nodes (chain f) ''B'')) = [''A'']"
  by (simp_all add: chain_def NewNode_def)


lemma chain_fns: "\<forall>nd \<in> set (chain_nodes f). Fn nd \<noteq> None"
  by (simp add: chain_nodes_def NewNode_def)





text \<open>
  Claim C5, as amended. \<open>runNode\<close> drops the error that a work function returns, so a
  failure blocks nothing: for a graph built by \<open>Add\<close> whose nodes all have a work
  function, whatever these functions return, \<open>run\<close> returns and has called the work of
  every node of the graph, the dependents of a failed node included.
\<close>

theorem run_invokes_every_node:
  assumes built: "AddAll (NewGraph nm) ns = Some g"
    and fns: "\<forall>nd \<in> set ns. Fn nd \<noteq> None"
    and plan: "compiled_plan g peg"
    and eks: "range_order (peg_nodes peg) eks"
    and fuel: "length ns \<le> fuel"
  shows "\<exists>log. run fuel peg eks = Some (Inr log) \<and> (\<forall>n. nodes g n \<noteq> None \<longrightarrow> n \<in> set log)"
proof -
  from built_ranked [OF built] obtain r where r: "ranked g r (length ns)" ..
  have p: "plan_of g peg" by (rule compiled_plan_of [OF plan])
  have f: "\<forall>n nd. nodes g n = Some nd \<longrightarrow> Fn nd \<noteq> None"
    using built_Fn [OF built] fns by blast
  from run_built_returns [OF p r f fuel, where eks = eks]
  obtain log where log: "runNode_range fuel peg (RootIds (peg_nodes peg) eks) [] = Some (Inr log)"
    by blast
  note cnt = run_built_count [OF p r eks log]
  have pos: "\<And>n nd. nodes g n = Some nd \<Longrightarrow> 0 < count_list log n"
  proof -
    fix n nd
    show "nodes g n = Some nd \<Longrightarrow> 0 < count_list log n"
    proof (induction "r n" arbitrary: n nd rule: less_induct)
      case less
      show ?case
      proof (cases "Dependencies nd")
        case Nil
        with cnt [OF less.prems] show ?thesis by simp
      next
        case (Cons d ds)
        then have d: "d \<in> set (Dependencies nd)" by simp
        from rankedD(2) [OF r less.prems d] obtain dn where
          dn: "nodes g d = Some dn" and lt: "r d < r n" by auto
        from less.hyps [OF lt dn] have "0 < count_list log d" .
        moreover have "count_list log d \<le> (\<Sum>d\<in>set (Dependencies nd). count_list log d)"
          using d by (intro member_le_sum) simp_all
        ultimately show ?thesis using cnt [OF less.prems] Cons by simp
      qed
    qed
  qed
  have "\<forall>n. nodes g n \<noteq> None \<longrightarrow> n \<in> set log"
  proof (intro allI impI)
    fix n assume "nodes g n \<noteq> None"
    then obtain nd where "nodes g n = Some nd" by auto
    from pos [OF this] show "n \<in> set log"
      using count_list_0_iff [of log n] by simp
  qed
  with log show ?thesis unfolding run_def by blast
qed

theorem run_invokes_every_node_witness:
  "AddAll (NewGraph ''chain'') (chain_nodes failing_work) = Some (chain failing_work) \<and>
   map Fn (chain_nodes failing_work) = [Some failing_work, Some doodad] \<and>
   failing_work ''A'' = Some (NodeDoesNotExist ''A'') \<and>
   compiled_plan (chain failing_work) (fst (CompileToExecutable (chain failing_work) [''A'', ''B''])) \<and>
   range_order (peg_nodes (fst (CompileToExecutable (chain failing_work) [''A'', ''B''])))
     [''B'', ''A''] \<and>
   length (chain_nodes failing_work) \<le> 2 \<and>
   Dependencies (the (nodes (chain failing_work) ''B'')) = [''A''] \<and>
   (\<exists>log. run 2 (fst (CompileToExecutable (chain failing_work) [''A'', ''B''])) [''B'', ''A'']
            = Some (Inr log) \<and> ''A'' \<in> set log \<and> ''B'' \<in> set log)"
proof -
  let ?g = "chain failing_work"
  let ?P = "fst (CompileToExecutable ?g [''A'', ''B''])"
  have len: "length (chain_nodes failing_work) \<le> 2" by (simp add: chain_nodes_def)
  have cp: "compiled_plan ?g ?P" by (rule compiled_plan_Compile [OF chain_order])
  from run_invokes_every_node [OF chain_built chain_fns cp chain_compiled_order len]
  obtain log where log: "run 2 ?P [''B'', ''A''] = Some (Inr log)"
    and every: "\<And>n. nodes ?g n \<noteq> None \<Longrightarrow> n \<in> set log"
    by blast
  have "nodes ?g ''A'' \<noteq> None" "nodes ?g ''B'' \<noteq> None" by (simp_all add: chain_def)
  then have "''A'' \<in> set log" "''B'' \<in> set log" by (simp_all add: every)
  with log have r: "\<exists>log. run 2 ?P [''B'', ''A''] = Some (Inr log) \<and> ''A'' \<in> set log \<and> ''B'' \<in> set log"
    by blast
  have f: "map Fn (chain_nodes failing_work) = [Some failing_work, Some doodad]"
    by (simp add: chain_nodes_def NewNode_def)
  from chain_built f failing_work_fails cp chain_compiled_order len chain_fields(2) r
  show ?thesis by (intro conjI)
qed

text \<open>
  Claim C5 as stated fails on the chain where \<open>B\<close> depends on \<open>A\<close> and the work of \<open>A\<close>
  returns an error: the work of \<open>B\<close> is called all the same.
\<close>

theorem run_dispatches_dependent_of_failed_node:
  "AddAll (NewGraph ''chain'') (chain_nodes failing_work) = Some (chain failing_work) \<and>
   Fn (the (nodes (chain failing_work) ''A'')) = Some failing_work \<and>
   failing_work ''A'' = Some (NodeDoesNotExist ''A'') \<and>
   Dependencies (the (nodes (chain failing_work) ''B'')) = [''A''] \<and>
   run (Suc (Suc 0)) (fst (CompileToExecutable (chain failing_work) [''A'', ''B''])) [''B'', ''A'']
     = Some (Inr [''A'', ''B''])"
  by (intro conjI chain_built chain_fields failing_work_fails run_chain)

text \<open>
  Claim C6, as amended. \<open>run\<close> has no result, and the errors of the work functions are
  dropped: they are neither collected nor thrown. What \<open>run\<close> does (the calls it makes,
  their order, and whether it returns or panics) is the same for two plans that differ
  only in their work functions.
\<close>

theorem run_ignores_work_results:
  assumes "same_but_work peg1 peg2"
  shows "run fuel peg1 eks = run fuel peg2 eks"
  unfolding run_def RootIds_same_but_work [OF assms]
  by (rule runNode_range_cong_step) (rule runNode_same_but_work [OF assms])

theorem run_ignores_work_results_witness:
  "same_but_work (fst (CompileToExecutable (chain failing_work) [''A'', ''B'']))
     (fst (CompileToExecutable (chain doodad) [''A'', ''B''])) \<and>
   failing_work ''A'' \<noteq> doodad ''A'' \<and>
   run (Suc (Suc 0)) (fst (CompileToExecutable (chain failing_work) [''A'', ''B''])) [''B'', ''A'']
     = run (Suc (Suc 0)) (fst (CompileToExecutable (chain doodad) [''A'', ''B''])) [''B'', ''A''] \<and>
   run (Suc (Suc 0)) (fst (CompileToExecutable (chain doodad) [''A'', ''B''])) [''B'', ''A'']
     = Some (Inr [''A'', ''B''])"
  using run_ignores_work_results [OF chain_same_but_work [of failing_work doodad],
      of "Suc (Suc 0)" "[''B'', ''A'']"]
    chain_same_but_work [of failing_work doodad] run_chain [of doodad]
  by (simp add: failing_work_def doodad_def)

text \<open>
  Claim C6 as stated fails on the chain: with a work function of \<open>A\<close> that fails and with
  one that succeeds, \<open>run\<close> ends in the same way, so nothing it hands back tells the
  failure.
\<close>

theorem run_result_same_with_and_without_failure:
  "failing_work ''A'' = Some (NodeDoesNotExist ''A'') \<and> doodad ''A'' = None \<and>
   Fn (the (nodes (chain failing_work) ''A'')) = Some failing_work \<and>
   Fn (the (nodes (chain doodad) ''A'')) = Some doodad \<and>
   run (Suc (Suc 0)) (fst (CompileToExecutable (chain failing_work) [''A'', ''B''])) [''B'', ''A'']
     = run (Suc (Suc 0)) (fst (CompileToExecutable (chain doodad) [''A'', ''B''])) [''B'', ''A'']"
  using run_chain [of failing_work] run_chain [of doodad]
  by (simp add: failing_work_fails chain_fields doodad_def)

text \<open>
  Claim C10. For a graph built by successful calls of \<open>Add\<close>, the compiled plan is closed
  under targets: every target of an executable node is a key of the plan. So \<open>runNode\<close>,
  started at any key, and \<open>run\<close> never end in the dereference of a missing node; and
  with a stack as deep as the graph has nodes, \<open>run\<close> ends.
\<close>

theorem targets_closed_no_nil_node:
  assumes built: "AddAll (NewGraph nm) ns = Some g" and plan: "compiled_plan g peg"
  shows "(\<forall>x e t. peg_nodes peg x = Some e \<and> t \<in> target_set e \<longrightarrow> peg_nodes peg t \<noteq> None) \<and>
         (\<forall>fuel x log p. peg_nodes peg x \<noteq> None \<longrightarrow>
            runNode fuel peg x log \<noteq> Some (Inl (NilNode p))) \<and>
         (\<forall>fuel eks p. run fuel peg eks \<noteq> Some (Inl (NilNode p))) \<and>
         (\<forall>fuel eks. length ns \<le> fuel \<longrightarrow> run fuel peg eks \<noteq> None)"
proof -
  from built_ranked [OF built] obtain r where r: "ranked g r (length ns)" ..
  have p: "plan_of g peg" by (rule compiled_plan_of [OF plan])
  have cl: "\<forall>x node t. peg_nodes peg x = Some node \<and> t \<in> set (target_list node)
                 \<longrightarrow> peg_nodes peg t \<noteq> None"
    using plan_ranked_closed [OF p r] by blast
  have 1: "\<forall>x e t. peg_nodes peg x = Some e \<and> t \<in> target_set e \<longrightarrow> peg_nodes peg t \<noteq> None"
    using cl unfolding target_set_list by blast
  have 2: "\<forall>fuel x log p. peg_nodes peg x \<noteq> None \<longrightarrow>
            runNode fuel peg x log \<noteq> Some (Inl (NilNode p))"
    using runNode_no_NilNode [OF cl] by blast
  have 3: "\<forall>fuel eks p. run fuel peg eks \<noteq> Some (Inl (NilNode p))"
  proof (intro allI)
    fix fuel eks p
    show "run fuel peg eks \<noteq> Some (Inl (NilNode p))"
      unfolding run_def
    proof (rule runNode_range_safe_step)
      fix t log assume "t \<in> set (RootIds (peg_nodes peg) eks)"
      from RootIds_keys [OF this] show "runNode fuel peg t log \<noteq> Some (Inl (NilNode p))"
        by (rule runNode_no_NilNode [OF cl])
    qed
  qed
  have 4: "\<forall>fuel eks. length ns \<le> fuel \<longrightarrow> run fuel peg eks \<noteq> None"
    unfolding run_def using run_total [OF p r] by blast
  from 1 2 3 4 show ?thesis by (intro conjI)
qed

theorem targets_closed_no_nil_node_witness:
  "AddAll (NewGraph ''diamond'') diamond_nodes = Some diamond \<and>
   compiled_plan diamond (fst (CompileToExecutable diamond [''A'', ''E'', ''C''])) \<and>
   peg_nodes (fst (CompileToExecutable diamond [''A'', ''E'', ''C''])) ''A''
     = Some \<lparr>targetIDs = Some [''C''], required = 0, fn = Some doodad\<rparr> \<and>
   ''C'' \<in> target_set \<lparr>targetIDs = Some [''C''], required = 0, fn = Some doodad\<rparr> \<and>
   peg_nodes (fst (CompileToExecutable diamond [''A'', ''E'', ''C''])) ''C'' \<noteq> None \<and>
   runNode 3 (fst (CompileToExecutable diamond [''A'', ''E'', ''C''])) ''A'' []
     \<noteq> Some (Inl (NilNode ''C'')) \<and>
   run 3 (fst (CompileToExecutable diamond [''A'', ''E'', ''C''])) [''C'', ''A'', ''E'']
     \<noteq> Some (Inl (NilNode ''C'')) \<and>
   length diamond_nodes \<le> 3 \<and>
   run 3 (fst (CompileToExecutable diamond [''A'', ''E'', ''C''])) [''C'', ''A'', ''E''] \<noteq> None"
proof -
  let ?P = "fst (CompileToExecutable diamond [''A'', ''E'', ''C''])"
  let ?a = "\<lparr>targetIDs = Some [''C''], required = 0, fn = Some doodad\<rparr>"
  have len: "length diamond_nodes \<le> 3" by (simp add: diamond_nodes_def)
  have cp: "compiled_plan diamond ?P" by (rule compiled_plan_Compile [OF diamond_order])
  note t = targets_closed_no_nil_node [OF diamond_built cp]
  have ts: "''C'' \<in> target_set ?a" by (simp add: target_set_def)
  from t have 1: "\<And>x e t. peg_nodes ?P x = Some e \<Longrightarrow> t \<in> target_set e \<Longrightarrow> peg_nodes ?P t \<noteq> None"
    by blast
  from t have 2: "\<And>fuel x log p. peg_nodes ?P x \<noteq> None \<Longrightarrow>
      runNode fuel ?P x log \<noteq> Some (Inl (NilNode p))"
    by blast
  from t have 3: "\<And>fuel eks p. run fuel ?P eks \<noteq> Some (Inl (NilNode p))" by blast
  from t have 4: "\<And>fuel eks. length diamond_nodes \<le> fuel \<Longrightarrow> run fuel ?P eks \<noteq> None" by blast
  have c: "peg_nodes ?P ''C'' \<noteq> None" by (rule 1 [OF diamond_compiled_A ts])
  have a: "peg_nodes ?P ''A'' \<noteq> None" by (simp add: diamond_compiled_A)
  show ?thesis
    by (intro conjI diamond_built cp diamond_compiled_A ts c 2 [OF a] 3 len 4 [OF len])
qed

section \<open>\<open>Sort\<close> and \<open>CompileToExecutable\<close> leave the graph as it is\<close>

lemma unvisited_mono:
  assumes "finite (dom (nodes g))" "\<forall>x. visited st x \<longrightarrow> visited st' x"
  shows "card (unvisited g st') \<le> card (unvisited g st)"
proof (rule card_mono)
  show "finite (unvisited g st)" using assms(1) by (simp add: unvisited_def)
  show "unvisited g st' \<subseteq> unvisited g st" using assms(2) by (auto simp: unvisited_def)
qed

lemma unvisited_mark:
  assumes fin: "finite (dom (nodes g))" and n: "nodes g nm \<noteq> None" and v: "\<not> visited st nm"
    and c: "card (unvisited g st) \<le> Suc k"
  shows "card (unvisited g (st\<lparr>visited := (visited st)(nm := True),
                               stack := (stack st)(nm := True)\<rparr>)) \<le> k"
proof -
  let ?st1 = "st\<lparr>visited := (visited st)(nm := True), stack := (stack st)(nm := True)\<rparr>"
  have f: "finite (unvisited g st)" using fin by (simp add: unvisited_def)
  have m: "nm \<in> unvisited g st" using n v by (auto simp: unvisited_def)
  have "unvisited g ?st1 = unvisited g st - {nm}" by (auto simp: unvisited_def)
  then have "card (unvisited g ?st1) = card (unvisited g st) - 1"
    using f m by simp
  with c show ?thesis by arith
qed

lemma visit_range_total_step:
  assumes fin: "finite (dom (nodes g))"
    and v: "\<forall>nm nb st. nodes g nm \<noteq> None \<and> \<not> visited st nm \<and> card (unvisited g st) \<le> k \<longrightarrow>
              (\<exists>e st'. visit k nm nb (g, st) = Some (e, g, st') \<and>
                        (\<forall>x. visited st x \<longrightarrow> visited st' x))"
  shows "card (unvisited g st) \<le> k \<Longrightarrow>
           \<exists>e st'. visit_range k nb (g, st) = Some (e, g, st') \<and>
                    (\<forall>x. visited st x \<longrightarrow> visited st' x)"
proof (induction nb arbitrary: st)
  case Nil
  show ?case by simp
next
  case (Cons n rest)
  show ?case
  proof (cases "visited st n")
    case True
    show ?thesis
    proof (cases "stack st n")
      case s: True
      with True show ?thesis by simp
    next
      case s: False
      from Cons.IH [OF Cons.prems] True s show ?thesis by simp
    qed
  next
    case False
    show ?thesis
    proof (cases "nodes g n")
      case None
      with False show ?thesis by simp
    next
      case (Some node)
      have pre: "nodes g n \<noteq> None \<and> \<not> visited st n \<and> card (unvisited g st) \<le> k"
        using Some False Cons.prems by simp
      from v [THEN spec, THEN spec, THEN spec, THEN mp, OF pre]
      obtain e st1 where
        r: "visit k n (Dependencies node) (g, st) = Some (e, g, st1)"
        and m: "\<forall>x. visited st x \<longrightarrow> visited st1 x"
        by blast
      show ?thesis
      proof (cases e)
        case (Some err)
        with r m False \<open>nodes g n = Some node\<close> show ?thesis by simp
      next
        case None
        have "card (unvisited g st1) \<le> k"
          using unvisited_mono [OF fin m] Cons.prems by arith
        from Cons.IH [OF this] obtain e2 st2 where
          r2: "visit_range k rest (g, st1) = Some (e2, g, st2)"
          and m2: "\<forall>x. visited st1 x \<longrightarrow> visited st2 x"
          by blast
        from m m2 have "\<forall>x. visited st x \<longrightarrow> visited st2 x" by blast
        with r r2 None False \<open>nodes g n = Some node\<close> show ?thesis by simp
      qed
    qed
  qed
qed

lemma visit_total:
  assumes fin: "finite (dom (nodes g))"
  shows "\<forall>nm nb st. nodes g nm \<noteq> None \<and> \<not> visited st nm \<and> card (unvisited g st) \<le> k \<longrightarrow>
              (\<exists>e st'. visit k nm nb (g, st) = Some (e, g, st') \<and>
                        (\<forall>x. visited st x \<longrightarrow> visited st' x))"
proof (induction k)
  case 0
  show ?case
  proof (intro allI impI)
    fix nm nb st
    assume a: "nodes g nm \<noteq> None \<and> \<not> visited st nm \<and> card (unvisited g st) \<le> 0"
    have f: "finite (unvisited g st)" using fin by (simp add: unvisited_def)
    from a have "nm \<in> unvisited g st" by (auto simp: unvisited_def)
    with f have "card (unvisited g st) \<noteq> 0" by auto
    with a show "\<exists>e st'. visit 0 nm nb (g, st) = Some (e, g, st') \<and>
                        (\<forall>x. visited st x \<longrightarrow> visited st' x)"
      by simp
  qed
next
  case (Suc k)
  show ?case
  proof (intro allI impI)
    fix nm nb st
    assume a: "nodes g nm \<noteq> None \<and> \<not> visited st nm \<and> card (unvisited g st) \<le> Suc k"
    let ?st1 = "st\<lparr>visited := (visited st)(nm := True), stack := (stack st)(nm := True)\<rparr>"
    have "card (unvisited g ?st1) \<le> k"
      using a by (intro unvisited_mark [OF fin]) simp_all
    from visit_range_total_step [OF fin Suc.IH this, of nb] obtain e st2 where
      r: "visit_range k nb (g, ?st1) = Some (e, g, st2)"
      and m: "\<forall>x. visited ?st1 x \<longrightarrow> visited st2 x"
      by blast
    from m have m': "\<forall>x. visited st x \<longrightarrow> visited st2 x" by simp
    show "\<exists>e st'. visit (Suc k) nm nb (g, st) = Some (e, g, st') \<and>
                        (\<forall>x. visited st x \<longrightarrow> visited st' x)"
    proof (cases e)
      case None
      with r m' show ?thesis by simp
    next
      case (Some err)
      with r m' show ?thesis by simp
    qed
  qed
qed

lemma visit_range_graph_step:
  assumes v: "\<forall>nm nb st e g' st'. visit k nm nb (g, st) = Some (e, g', st') \<longrightarrow> g' = g"
  shows "visit_range k nb (g, st) = Some (e, g', st') \<Longrightarrow> g' = g"
proof (induction nb arbitrary: st)
  case Nil
  then show ?case by simp
next
  case (Cons n rest)
  show ?case
  proof (cases "visited st n")
    case True
    show ?thesis
    proof (cases "stack st n")
      case s: True
      with True Cons.prems show ?thesis by simp
    next
      case s: False
      with True Cons.prems have "visit_range k rest (g, st) = Some (e, g', st')" by simp
      then show ?thesis by (rule Cons.IH)
    qed
  next
    case False
    show ?thesis
    proof (cases "nodes g n")
      case None
      with False Cons.prems show ?thesis by simp
    next
      case (Some node)
      show ?thesis
      proof (cases "visit k n (Dependencies node) (g, st)")
        case None
        with False Some Cons.prems show ?thesis by simp
      next
        case r: (Some res)
        obtain e1 g1 st1 where res: "res = (e1, g1, st1)" by (cases res) auto
        with r v have g1: "g1 = g" by blast
        show ?thesis
        proof (cases e1)
          case None
          with False Some r res g1 Cons.prems have "visit_range k rest (g, st1) = Some (e, g', st')"
            by simp
          then show ?thesis by (rule Cons.IH)
        next
          case (Some err)
          with False \<open>nodes g n = Some node\<close> r res g1 Cons.prems show ?thesis by simp
        qed
      qed
    qed
  qed
qed

lemma visit_graph:
  "\<forall>nm nb st e g' st'. visit k nm nb (g, st) = Some (e, g', st') \<longrightarrow> g' = g"
proof (induction k)
  case 0
  show ?case by simp
next
  case (Suc k)
  show ?case
  proof (intro allI impI)
    fix nm nb st e g' st'
    assume a: "visit (Suc k) nm nb (g, st) = Some (e, g', st')"
    let ?st1 = "st\<lparr>visited := (visited st)(nm := True), stack := (stack st)(nm := True)\<rparr>"
    show "g' = g"
    proof (cases "visit_range k nb (g, ?st1)")
      case None
      with a show ?thesis by simp
    next
      case (Some res)
      obtain e1 g1 st1 where res: "res = (e1, g1, st1)" by (cases res) auto
      with Some have "visit_range k nb (g, ?st1) = Some (e1, g1, st1)" by simp
      then have "g1 = g" by (rule visit_range_graph_step [OF Suc.IH])
      with a Some res show ?thesis by (cases e1) simp_all
    qed
  qed
qed

lemma Sort_range_graph:
  "Sort_range k ks (g, st) = Some (e, g', st') \<Longrightarrow> g' = g"
proof (induction ks arbitrary: st)
  case Nil
  then show ?case by simp
next
  case (Cons n rest)
  show ?case
  proof (cases "nodes g n")
    case None
    with Cons.prems have "Sort_range k rest (g, st) = Some (e, g', st')" by simp
    then show ?thesis by (rule Cons.IH)
  next
    case (Some node)
    show ?thesis
    proof (cases "visited st n")
      case True
      with Some Cons.prems have "Sort_range k rest (g, st) = Some (e, g', st')" by simp
      then show ?thesis by (rule Cons.IH)
    next
      case False
      show ?thesis
      proof (cases "visit k n (Dependencies node) (g, st\<lparr>stack := (\<lambda>_. False)\<rparr>)")
        case None
        with False Some Cons.prems show ?thesis by simp
      next
        case r: (Some res)
        obtain e1 g1 st1 where res: "res = (e1, g1, st1)" by (cases res) auto
        with r visit_graph [of k g] have g1: "g1 = g" by blast
        show ?thesis
        proof (cases e1)
          case None
          with False Some r res g1 Cons.prems have "Sort_range k rest (g, st1) = Some (e, g', st')"
            by simp
          then show ?thesis by (rule Cons.IH)
        next
          case (Some err)
          with False \<open>nodes g n = Some node\<close> r res g1 Cons.prems show ?thesis by simp
        qed
      qed
    qed
  qed
qed

lemma Sort_graph:
  assumes "Sort fuel g ks = Some (r, g')"
  shows "g' = g"
proof -
  let ?st0 = "\<lparr>visited = (\<lambda>_. False), stack = (\<lambda>_. False), results = replicate (length ks) []\<rparr>"
  show ?thesis
  proof (cases "Sort_range fuel ks (g, ?st0)")
    case None
    with assms show ?thesis by (simp add: Sort_def)
  next
    case (Some res)
    obtain e1 g1 st1 where res: "res = (e1, g1, st1)" by (cases res) auto
    with Some have "Sort_range fuel ks (g, ?st0) = Some (e1, g1, st1)" by simp
    then have "g1 = g" by (rule Sort_range_graph)
    with assms Some res show ?thesis by (cases e1) (simp_all add: Sort_def)
  qed
qed

lemma Sort_range_total:
  assumes fin: "finite (dom (nodes g))"
  shows "card (unvisited g st) \<le> k \<Longrightarrow>
           \<exists>e st'. Sort_range k ks (g, st) = Some (e, g, st') \<and>
                    (\<forall>x. visited st x \<longrightarrow> visited st' x)"
proof (induction ks arbitrary: st)
  case Nil
  show ?case by simp
next
  case (Cons n rest)
  show ?case
  proof (cases "nodes g n")
    case None
    with Cons.IH [OF Cons.prems] show ?thesis by simp
  next
    case (Some node)
    show ?thesis
    proof (cases "visited st n")
      case True
      with Some Cons.IH [OF Cons.prems] show ?thesis by simp
    next
      case False
      let ?st0 = "st\<lparr>stack := (\<lambda>_. False)\<rparr>"
      have u: "unvisited g ?st0 = unvisited g st" by (simp add: unvisited_def)
      have pre: "nodes g n \<noteq> None \<and> \<not> visited ?st0 n \<and> card (unvisited g ?st0) \<le> k"
        using Some False Cons.prems u by simp
      from visit_total [OF fin, of k, THEN spec, THEN spec, THEN spec, THEN mp, OF pre]
      obtain e st1 where
        r: "visit k n (Dependencies node) (g, ?st0) = Some (e, g, st1)"
        and m: "\<forall>x. visited ?st0 x \<longrightarrow> visited st1 x"
        by blast
      from m have m': "\<forall>x. visited st x \<longrightarrow> visited st1 x" by simp
      show ?thesis
      proof (cases e)
        case (Some err)
        with r m' False \<open>nodes g n = Some node\<close> show ?thesis by simp
      next
        case None
        have "card (unvisited g st1) \<le> k"
          using unvisited_mono [OF fin m'] Cons.prems by arith
        from Cons.IH [OF this] obtain e2 st2 where
          r2: "Sort_range k rest (g, st1) = Some (e2, g, st2)"
          and m2: "\<forall>x. visited st1 x \<longrightarrow> visited st2 x"
          by blast
        from m' m2 have "\<forall>x. visited st x \<longrightarrow> visited st2 x" by blast
        with r r2 None False \<open>nodes g n = Some node\<close> show ?thesis by simp
      qed
    qed
  qed
qed

lemma Sort_total:
  assumes ks: "range_order (nodes g) ks" and fuel: "length ks \<le> fuel"
  shows "\<exists>r. Sort fuel g ks = Some (r, g)"
proof -
  let ?st0 = "\<lparr>visited = (\<lambda>_. False), stack = (\<lambda>_. False), results = replicate (length ks) []\<rparr>"
  from ks have d: "distinct ks" and s: "set ks = dom (nodes g)" by (simp_all add: range_order_def)
  have fin: "finite (dom (nodes g))" unfolding s [symmetric] by simp
  have "unvisited g ?st0 = set ks" by (simp add: unvisited_def s)
  then have "card (unvisited g ?st0) = length ks" using d by (simp add: distinct_card)
  with fuel have "card (unvisited g ?st0) \<le> fuel" by simp
  from Sort_range_total [OF fin this, of ks] obtain e st' where
    r: "Sort_range fuel ks (g, ?st0) = Some (e, g, st')" by blast
  then show ?thesis by (cases e) (simp_all add: Sort_def)
qed

lemma Compile_graph: "snd (CompileToExecutable g ks) = g"
proof -
  obtain g' en where c: "compile_range ks (g, Map.empty) = (g', en)"
    by (cases "compile_range ks (g, Map.empty)") auto
  then have "g' = g" using compile_range_graph [of ks g Map.empty] by simp
  with c show ?thesis by (simp add: CompileToExecutable_def)
qed

lemma Sort_diamond:
  "Sort (Suc (Suc (Suc 0))) diamond [''A'', ''E'', ''C'']
     = Some (Inr [''A'', ''E'', ''C''], diamond)"
  by (simp add: Sort_def diamond_def NewNode_def)

text \<open>
  Claim C9. Neither \<open>Sort\<close> nor \<open>CompileToExecutable\<close> modifies the graph: the graph after
  the call (its name and its node map, with the name, work function and dependencies
  of every node) is the graph before the call. \<open>Sort\<close> does return, with a result or an
  error, when the recursion of \<open>visit\<close> may go as deep as the graph has nodes.
\<close>

theorem Sort_and_Compile_leave_graph:
  "(\<forall>fuel ks r g'. Sort fuel g ks = Some (r, g') \<longrightarrow> g' = g) \<and>
   (\<forall>fuel ks. range_order (nodes g) ks \<and> length ks \<le> fuel \<longrightarrow>
      (\<exists>r. Sort fuel g ks = Some (r, g))) \<and>
   (\<forall>ks. snd (CompileToExecutable g ks) = g)"
proof (intro conjI allI impI)
  fix fuel ks r g' assume "Sort fuel g ks = Some (r, g')"
  then show "g' = g" by (rule Sort_graph)
next
  fix fuel ks assume "range_order (nodes g) ks \<and> length ks \<le> fuel"
  then show "\<exists>r. Sort fuel g ks = Some (r, g)" using Sort_total by blast
next
  fix ks show "snd (CompileToExecutable g ks) = g" by (rule Compile_graph)
qed

theorem Sort_and_Compile_leave_graph_witness:
  "range_order (nodes diamond) [''A'', ''E'', ''C''] \<and>
   length [''A'', ''E'', ''C''] \<le> Suc (Suc (Suc 0)) \<and>
   Sort (Suc (Suc (Suc 0))) diamond [''A'', ''E'', ''C'']
     = Some (Inr [''A'', ''E'', ''C''], diamond) \<and>
   snd (CompileToExecutable diamond [''A'', ''E'', ''C'']) = diamond"
proof -
  note t = Sort_and_Compile_leave_graph [of diamond]
  from t have "snd (CompileToExecutable diamond [''A'', ''E'', ''C'']) = diamond" by blast
  with diamond_order Sort_diamond show ?thesis by simp
qed

section \<open>\<open>Sort\<close> on a graph with a cycle\<close>

lemma visit_range_sound_step:
  assumes v: "\<forall>nm nb st e g' st'. set nb \<subseteq> set (deps_of g nm) \<and>
                (\<forall>a. stack st a \<longrightarrow> (a, nm) \<in> (depends g)\<^sup>*) \<and>
                visit k nm nb (g, st) = Some (e, g', st') \<longrightarrow> sound_outcome g st e st'"
  shows "set nb \<subseteq> set (deps_of g nm) \<Longrightarrow> (\<forall>a. stack st a \<longrightarrow> (a, nm) \<in> (depends g)\<^sup>*) \<Longrightarrow>
         visit_range k nb (g, st) = Some (e, g', st') \<Longrightarrow> sound_outcome g st e st'"
proof (induction nb arbitrary: st)
  case Nil
  then show ?case by (simp add: sound_outcome_def)
next
  case (Cons n rest)
  from Cons.prems(1) have rest: "set rest \<subseteq> set (deps_of g nm)" and n: "n \<in> set (deps_of g nm)"
    by simp_all
  from n have edge: "(nm, n) \<in> depends g" by (simp add: depends_def)
  show ?case
  proof (cases "visited st n")
    case True
    show ?thesis
    proof (cases "stack st n")
      case s: True
      with Cons.prems(2) have "(n, nm) \<in> (depends g)\<^sup>*" by blast
      from this edge have "(n, n) \<in> (depends g)\<^sup>+" by (rule rtrancl_into_trancl1)
      moreover from True s Cons.prems(3) have "e = Some (DetectedCycle n)" by simp
      ultimately show ?thesis by (auto simp: sound_outcome_def cycle_or_missing_def)
    next
      case s: False
      with True Cons.prems(3) have "visit_range k rest (g, st) = Some (e, g', st')" by simp
      from Cons.IH [OF rest Cons.prems(2) this] show ?thesis .
    qed
  next
    case False
    show ?thesis
    proof (cases "nodes g n")
      case None
      with False Cons.prems(3) have "e = Some (NodeDoesNotExist n)" by simp
      with None n show ?thesis by (auto simp: sound_outcome_def cycle_or_missing_def)
    next
      case (Some node)
      then have d: "deps_of g n = Dependencies node" by (simp add: deps_of_def)
      have anc: "\<forall>a. stack st a \<longrightarrow> (a, n) \<in> (depends g)\<^sup>*"
      proof (intro allI impI)
        fix a assume "stack st a"
        with Cons.prems(2) have "(a, nm) \<in> (depends g)\<^sup>*" by blast
        from this edge show "(a, n) \<in> (depends g)\<^sup>*" by (rule rtrancl_into_rtrancl)
      qed
      show ?thesis
      proof (cases "visit k n (Dependencies node) (g, st)")
        case None
        with False Some Cons.prems(3) show ?thesis by simp
      next
        case r: (Some res)
        obtain e1 g1 st1 where res: "res = (e1, g1, st1)" by (cases res) auto
        with r have r1: "visit k n (Dependencies node) (g, st) = Some (e1, g1, st1)" by simp
        with visit_graph [of k g] have g1: "g1 = g" by blast
        have pre: "set (Dependencies node) \<subseteq> set (deps_of g n) \<and>
                (\<forall>a. stack st a \<longrightarrow> (a, n) \<in> (depends g)\<^sup>*) \<and>
                visit k n (Dependencies node) (g, st) = Some (e1, g1, st1)"
          using d anc r1 by simp
        have o1: "sound_outcome g st e1 st1"
          by (rule v [THEN spec, THEN spec, THEN spec, THEN spec, THEN spec, THEN spec,
                       THEN mp, OF pre])
        show ?thesis
        proof (cases e1)
          case (Some err)
          with False \<open>nodes g n = Some node\<close> r1 Cons.prems(3) have "e = Some err" by simp
          with o1 Some show ?thesis by (simp add: sound_outcome_def)
        next
          case None
          with o1 have sh: "\<forall>a. stack st1 a \<longrightarrow> stack st a" by (simp add: sound_outcome_def)
          from None False Some r1 g1 Cons.prems(3)
          have r2: "visit_range k rest (g, st1) = Some (e, g', st')" by simp
          have "\<forall>a. stack st1 a \<longrightarrow> (a, nm) \<in> (depends g)\<^sup>*"
            using sh Cons.prems(2) by blast
          from Cons.IH [OF rest this r2] have "sound_outcome g st1 e st'" .
          with sh show ?thesis by (cases e) (auto simp: sound_outcome_def)
        qed
      qed
    qed
  qed
qed

lemma visit_sound:
  "\<forall>nm nb st e g' st'. set nb \<subseteq> set (deps_of g nm) \<and>
                (\<forall>a. stack st a \<longrightarrow> (a, nm) \<in> (depends g)\<^sup>*) \<and>
                visit k nm nb (g, st) = Some (e, g', st') \<longrightarrow> sound_outcome g st e st'"
proof (induction k)
  case 0
  show ?case by simp
next
  case (Suc k)
  show ?case
  proof (intro allI impI)
    fix nm nb st e g' st'
    assume a: "set nb \<subseteq> set (deps_of g nm) \<and>
                (\<forall>a. stack st a \<longrightarrow> (a, nm) \<in> (depends g)\<^sup>*) \<and>
                visit (Suc k) nm nb (g, st) = Some (e, g', st')"
    let ?st1 = "st\<lparr>visited := (visited st)(nm := True), stack := (stack st)(nm := True)\<rparr>"
    have anc: "\<forall>a. stack ?st1 a \<longrightarrow> (a, nm) \<in> (depends g)\<^sup>*" using a by simp
    show "sound_outcome g st e st'"
    proof (cases "visit_range k nb (g, ?st1)")
      case None
      with a show ?thesis by simp
    next
      case (Some res)
      obtain e1 g1 st2 where res: "res = (e1, g1, st2)" by (cases res) auto
      with Some have r: "visit_range k nb (g, ?st1) = Some (e1, g1, st2)" by simp
      from a have nb: "set nb \<subseteq> set (deps_of g nm)" by simp
      have o: "sound_outcome g ?st1 e1 st2"
        by (rule visit_range_sound_step [OF Suc.IH nb anc r])
      show ?thesis
      proof (cases e1)
        case (Some err)
        with a r have "e = Some err" by simp
        with o Some show ?thesis by (simp add: sound_outcome_def)
      next
        case None
        with a r have e: "e = None"
          and st': "st' = st2\<lparr>results := fill_first nm (results st2),
                               stack := (stack st2)(nm := False)\<rparr>"
          by simp_all
        from o None have "\<forall>a. stack st2 a \<longrightarrow> stack ?st1 a" by (simp add: sound_outcome_def)
        then have "\<forall>a. stack st' a \<longrightarrow> stack st a" unfolding st' by (auto split: if_splits)
        with e show ?thesis by (simp add: sound_outcome_def)
      qed
    qed
  qed
qed

lemma dfs_post_finished:
  "dfs_post g st st' \<Longrightarrow> n \<in> finished st \<Longrightarrow> n \<in> finished st'"
  by (auto simp: dfs_post_def finished_def)

lemma dfs_post_trans:
  "dfs_post g st st1 \<Longrightarrow> dfs_post g st1 st2 \<Longrightarrow> dfs_post g st st2"
  by (auto simp: dfs_post_def)

lemma dfs_post_refl: "dfs_inv g st \<Longrightarrow> dfs_post g st st"
  by (simp add: dfs_post_def)

lemma finished_closed_rtrancl:
  assumes cl: "\<forall>n d. n \<in> F \<and> d \<in> set (deps_of g n) \<longrightarrow> d \<in> F"
  shows "(a, b) \<in> (depends g)\<^sup>* \<Longrightarrow> a \<in> F \<Longrightarrow> b \<in> F"
proof (induction rule: rtrancl_induct)
  case base
  then show ?case .
next
  case (step y z)
  from step.IH [OF step.prems] have "y \<in> F" .
  moreover from step.hyps(2) have "z \<in> set (deps_of g y)" by (simp add: depends_def)
  ultimately show ?case using cl by blast
qed

lemma dfs_inv_mark:
  assumes i: "dfs_inv g st" and v: "\<not> visited st nm"
  shows "dfs_inv g (st\<lparr>visited := (visited st)(nm := True), stack := (stack st)(nm := True)\<rparr>)"
proof -
  let ?st1 = "st\<lparr>visited := (visited st)(nm := True), stack := (stack st)(nm := True)\<rparr>"
  have f: "finished ?st1 = finished st" using v by (auto simp: finished_def)
  from i show ?thesis unfolding dfs_inv_def f by simp
qed

lemma dfs_inv_finish:
  assumes i: "dfs_inv g st2" and s: "stack st2 nm" 
    and deps: "\<forall>d \<in> set (deps_of g nm). d \<in> finished st2"
  shows "dfs_inv g (st2\<lparr>results := rs, stack := (stack st2)(nm := False)\<rparr>)"
proof -
  let ?st3 = "st2\<lparr>results := rs, stack := (stack st2)(nm := False)\<rparr>"
  from i s have vn: "visited st2 nm" by (simp add: dfs_inv_def)
  have f: "finished ?st3 = insert nm (finished st2)" using vn by (auto simp: finished_def)
  from i have cl: "\<forall>n d. n \<in> finished st2 \<and> d \<in> set (deps_of g n) \<longrightarrow> d \<in> finished st2"
    by (simp add: dfs_inv_def)
  from s have nf: "nm \<notin> finished st2" by (simp add: finished_def)
  have 1: "\<forall>a. stack ?st3 a \<longrightarrow> visited ?st3 a" using i by (simp add: dfs_inv_def)
  have 2: "\<forall>n d. n \<in> finished ?st3 \<and> d \<in> set (deps_of g n) \<longrightarrow> d \<in> finished ?st3"
    unfolding f using cl deps by blast
  have nocyc: "(nm, nm) \<notin> (depends g)\<^sup>+"
  proof
    assume "(nm, nm) \<in> (depends g)\<^sup>+"
    then obtain d where d: "(nm, d) \<in> depends g" and r: "(d, nm) \<in> (depends g)\<^sup>*"
      by (auto dest: tranclD)
    from d deps have "d \<in> finished st2" by (simp add: depends_def)
    from finished_closed_rtrancl [OF cl r this] nf show False by simp
  qed
  have 3: "\<forall>n. n \<in> finished ?st3 \<longrightarrow> (n, n) \<notin> (depends g)\<^sup>+"
    unfolding f using i nocyc by (auto simp: dfs_inv_def)
  from 1 2 3 show ?thesis unfolding dfs_inv_def by blast
qed

lemma visit_range_complete_step:
  assumes v: "\<forall>nm st g' st'. dfs_inv g st \<and> \<not> visited st nm \<and>
                visit k nm (deps_of g nm) (g, st) = Some (None, g', st') \<longrightarrow>
                dfs_post g st st' \<and> nm \<in> finished st'"
  shows "dfs_inv g st \<Longrightarrow> visit_range k nb (g, st) = Some (None, g', st') \<Longrightarrow>
         dfs_post g st st' \<and> (\<forall>n \<in> set nb. n \<in> finished st')"
proof (induction nb arbitrary: st)
  case Nil
  then show ?case by (simp add: dfs_post_refl)
next
  case (Cons n rest)
  show ?case
  proof (cases "visited st n")
    case True
    show ?thesis
    proof (cases "stack st n")
      case s: True
      with True Cons.prems(2) show ?thesis by simp
    next
      case s: False
      with True Cons.prems(2) have "visit_range k rest (g, st) = Some (None, g', st')" by simp
      from Cons.IH [OF Cons.prems(1) this]
      have p: "dfs_post g st st'" and r: "\<forall>n \<in> set rest. n \<in> finished st'" by simp_all
      from True s have "n \<in> finished st" by (simp add: finished_def)
      from dfs_post_finished [OF p this] p r show ?thesis by simp
    qed
  next
    case False
    show ?thesis
    proof (cases "nodes g n")
      case None
      with False Cons.prems(2) show ?thesis by simp
    next
      case (Some node)
      then have d: "Dependencies node = deps_of g n" by (simp add: deps_of_def)
      show ?thesis
      proof (cases "visit k n (deps_of g n) (g, st)")
        case None
        with False Some d Cons.prems(2) show ?thesis by simp
      next
        case r: (Some res)
        obtain e1 g1 st1 where res: "res = (e1, g1, st1)" by (cases res) auto
        with r have r1: "visit k n (deps_of g n) (g, st) = Some (e1, g1, st1)" by simp
        with visit_graph [of k g] have g1: "g1 = g" by blast
        show ?thesis
        proof (cases e1)
          case (Some err)
          with False \<open>nodes g n = Some node\<close> d r1 Cons.prems(2) show ?thesis by simp
        next
          case None
          have pre: "dfs_inv g st \<and> \<not> visited st n \<and>
                visit k n (deps_of g n) (g, st) = Some (None, g1, st1)"
            using Cons.prems(1) False r1 None by simp
          from v [THEN spec, THEN spec, THEN spec, THEN spec, THEN mp, OF pre]
          have p1: "dfs_post g st st1" and f1: "n \<in> finished st1" by simp_all
          from p1 have i1: "dfs_inv g st1" by (simp add: dfs_post_def)
          from None False \<open>nodes g n = Some node\<close> d r1 g1 Cons.prems(2)
          have r2: "visit_range k rest (g, st1) = Some (None, g', st')" by simp
          from Cons.IH [OF i1 r2]
          have p2: "dfs_post g st1 st'" and rr: "\<forall>n \<in> set rest. n \<in> finished st'" by simp_all
          from dfs_post_trans [OF p1 p2] dfs_post_finished [OF p2 f1] rr show ?thesis by simp
        qed
      qed
    qed
  qed
qed

lemma visit_complete:
  "\<forall>nm st g' st'. dfs_inv g st \<and> \<not> visited st nm \<and>
                visit k nm (deps_of g nm) (g, st) = Some (None, g', st') \<longrightarrow>
                dfs_post g st st' \<and> nm \<in> finished st'"
proof (induction k)
  case 0
  show ?case by simp
next
  case (Suc k)
  show ?case
  proof (intro allI impI)
    fix nm st g' st'
    assume a: "dfs_inv g st \<and> \<not> visited st nm \<and>
                visit (Suc k) nm (deps_of g nm) (g, st) = Some (None, g', st')"
    let ?st1 = "st\<lparr>visited := (visited st)(nm := True), stack := (stack st)(nm := True)\<rparr>"
    from a have i1: "dfs_inv g ?st1" by (intro dfs_inv_mark) simp_all
    from a have ns: "\<not> stack st nm" by (auto simp: dfs_inv_def)
    show "dfs_post g st st' \<and> nm \<in> finished st'"
    proof (cases "visit_range k (deps_of g nm) (g, ?st1)")
      case None
      with a show ?thesis by simp
    next
      case (Some res)
      obtain e1 g1 st2 where res: "res = (e1, g1, st2)" by (cases res) auto
      with Some have r: "visit_range k (deps_of g nm) (g, ?st1) = Some (e1, g1, st2)" by simp
      show ?thesis
      proof (cases e1)
        case (Some err)
        with a r show ?thesis by simp
      next
        case None
        with a r have st': "st' = st2\<lparr>results := fill_first nm (results st2),
                               stack := (stack st2)(nm := False)\<rparr>"
          by simp
        from r None have r': "visit_range k (deps_of g nm) (g, ?st1) = Some (None, g1, st2)"
          by simp
        from visit_range_complete_step [OF Suc.IH i1 r']
        have p: "dfs_post g ?st1 st2" and deps: "\<forall>d \<in> set (deps_of g nm). d \<in> finished st2"
          by simp_all
        from p have i2: "dfs_inv g st2" and s2: "stack st2 = (stack st)(nm := True)"
          and m2: "\<forall>x. visited ?st1 x \<longrightarrow> visited st2 x"
          by (simp_all add: dfs_post_def)
        from s2 have on: "stack st2 nm" by simp
        have i3: "dfs_inv g st'" unfolding st' by (rule dfs_inv_finish [OF i2 on deps])
        have "(stack st)(nm := False) = stack st" using ns by (intro ext) simp
        then have s3: "stack st' = stack st" unfolding st' using s2 by simp
        have m3: "\<forall>x. visited st x \<longrightarrow> visited st' x" unfolding st' using m2 by simp
        from m2 have "visited st' nm" unfolding st' by simp
        with s3 ns have "nm \<in> finished st'" by (simp add: finished_def)
        with i3 s3 m3 show ?thesis by (simp add: dfs_post_def)
      qed
    qed
  qed
qed

lemma Sort_range_sound:
  "Sort_range k ks (g, st) = Some (Some err, g', st') \<Longrightarrow> cycle_or_missing g err"
proof (induction ks arbitrary: st)
  case Nil
  then show ?case by simp
next
  case (Cons n rest)
  show ?case
  proof (cases "nodes g n")
    case None
    with Cons.prems have "Sort_range k rest (g, st) = Some (Some err, g', st')" by simp
    then show ?thesis by (rule Cons.IH)
  next
    case (Some node)
    then have d: "Dependencies node = deps_of g n" by (simp add: deps_of_def)
    show ?thesis
    proof (cases "visited st n")
      case True
      with Some Cons.prems have "Sort_range k rest (g, st) = Some (Some err, g', st')" by simp
      then show ?thesis by (rule Cons.IH)
    next
      case False
      let ?st0 = "st\<lparr>stack := (\<lambda>_. False)\<rparr>"
      show ?thesis
      proof (cases "visit k n (deps_of g n) (g, ?st0)")
        case None
        with False Some d Cons.prems show ?thesis by simp
      next
        case r: (Some res)
        obtain e1 g1 st1 where res: "res = (e1, g1, st1)" by (cases res) auto
        with r have r1: "visit k n (deps_of g n) (g, ?st0) = Some (e1, g1, st1)" by simp
        with visit_graph [of k g] have g1: "g1 = g" by blast
        have pre: "set (deps_of g n) \<subseteq> set (deps_of g n) \<and>
                (\<forall>a. stack ?st0 a \<longrightarrow> (a, n) \<in> (depends g)\<^sup>*) \<and>
                visit k n (deps_of g n) (g, ?st0) = Some (e1, g1, st1)"
          using r1 by simp
        have o: "sound_outcome g ?st0 e1 st1"
          by (rule visit_sound [of g k, THEN spec, THEN spec, THEN spec, THEN spec, THEN spec,
                THEN spec, THEN mp, OF pre])
        show ?thesis
        proof (cases e1)
          case (Some e)
          with False \<open>nodes g n = Some node\<close> d r1 Cons.prems have "err = e" by simp
          with o Some show ?thesis by (simp add: sound_outcome_def)
        next
          case None
          with False \<open>nodes g n = Some node\<close> d r1 g1 Cons.prems
          have "Sort_range k rest (g, st1) = Some (Some err, g', st')" by simp
          then show ?thesis by (rule Cons.IH)
        qed
      qed
    qed
  qed
qed

lemma Sort_range_complete:
  "dfs_inv g st \<Longrightarrow> stack st = (\<lambda>_. False) \<Longrightarrow>
   Sort_range k ks (g, st) = Some (None, g', st') \<Longrightarrow>
   dfs_post g st st' \<and> (\<forall>n \<in> set ks. nodes g n \<noteq> None \<longrightarrow> n \<in> finished st')"
proof (induction ks arbitrary: st)
  case Nil
  then show ?case by (simp add: dfs_post_refl)
next
  case (Cons n rest)
  show ?case
  proof (cases "nodes g n")
    case None
    with Cons.prems(3) have "Sort_range k rest (g, st) = Some (None, g', st')" by simp
    from Cons.IH [OF Cons.prems(1,2) this] None show ?thesis by simp
  next
    case (Some node)
    then have d: "Dependencies node = deps_of g n" by (simp add: deps_of_def)
    show ?thesis
    proof (cases "visited st n")
      case True
      with Some Cons.prems(3) have "Sort_range k rest (g, st) = Some (None, g', st')" by simp
      from Cons.IH [OF Cons.prems(1,2) this]
      have p: "dfs_post g st st'"
        and r: "\<forall>n \<in> set rest. nodes g n \<noteq> None \<longrightarrow> n \<in> finished st'" by simp_all
      from True Cons.prems(2) have "n \<in> finished st" by (simp add: finished_def)
      from dfs_post_finished [OF p this] p r show ?thesis by simp
    next
      case False
      let ?st0 = "st\<lparr>stack := (\<lambda>_. False)\<rparr>"
      have st0: "?st0 = st" using Cons.prems(2) by simp
      show ?thesis
      proof (cases "visit k n (deps_of g n) (g, st)")
        case None
        with False Some d st0 Cons.prems(3) show ?thesis by simp
      next
        case r: (Some res)
        obtain e1 g1 st1 where res: "res = (e1, g1, st1)" by (cases res) auto
        with r have r1: "visit k n (deps_of g n) (g, st) = Some (e1, g1, st1)" by simp
        with visit_graph [of k g] have g1: "g1 = g" by blast
        show ?thesis
        proof (cases e1)
          case (Some e)
          with False \<open>nodes g n = Some node\<close> d st0 r1 Cons.prems(3) show ?thesis by simp
        next
          case None
          have pre: "dfs_inv g st \<and> \<not> visited st n \<and>
                visit k n (deps_of g n) (g, st) = Some (None, g1, st1)"
            using Cons.prems(1) False r1 None by simp
          from visit_complete [of g k, THEN spec, THEN spec, THEN spec, THEN spec, THEN mp, OF pre]
          have p1: "dfs_post g st st1" and f1: "n \<in> finished st1" by simp_all
          from p1 have i1: "dfs_inv g st1" and s1: "stack st1 = (\<lambda>_. False)"
            using Cons.prems(2) by (simp_all add: dfs_post_def)
          from None False \<open>nodes g n = Some node\<close> d st0 r1 g1 Cons.prems(3)
          have r2: "Sort_range k rest (g, st1) = Some (None, g', st')" by simp
          from Cons.IH [OF i1 s1 r2]
          have p2: "dfs_post g st1 st'"
            and rr: "\<forall>n \<in> set rest. nodes g n \<noteq> None \<longrightarrow> n \<in> finished st'" by simp_all
          from dfs_post_trans [OF p1 p2] dfs_post_finished [OF p2 f1] rr show ?thesis by simp
        qed
      qed
    qed
  qed
qed

lemma dfs_inv_initial:
  "dfs_inv g \<lparr>visited = (\<lambda>_. False), stack = (\<lambda>_. False), results = rs\<rparr>"
  by (simp add: dfs_inv_def finished_def)

lemma cycle_in_graph:
  assumes "(c, c) \<in> (depends g)\<^sup>+"
  shows "nodes g c \<noteq> None"
proof -
  from assms obtain d where "(c, d) \<in> depends g" by (auto dest: tranclD)
  then have "d \<in> set (deps_of g c)" by (simp add: depends_def)
  then show ?thesis by (cases "nodes g c") (simp_all add: deps_of_def)
qed

lemma Sort_Inr_acyclic:
  assumes ks: "range_order (nodes g) ks" and s: "Sort fuel g ks = Some (Inr rs, g')"
  shows "(c, c) \<notin> (depends g)\<^sup>+"
proof
  assume c: "(c, c) \<in> (depends g)\<^sup>+"
  let ?st0 = "\<lparr>visited = (\<lambda>_. False), stack = (\<lambda>_. False), results = replicate (length ks) []\<rparr>"
  from s obtain st' g1 where r: "Sort_range fuel ks (g, ?st0) = Some (None, g1, st')"
    by (auto simp: Sort_def split: option.splits prod.splits)
  have "stack ?st0 = (\<lambda>_. False)" by simp
  from Sort_range_complete [OF dfs_inv_initial this r]
  have p: "dfs_post g ?st0 st'"
    and f: "\<forall>n \<in> set ks. nodes g n \<noteq> None \<longrightarrow> n \<in> finished st'" by simp_all
  from cycle_in_graph [OF c] have n: "nodes g c \<noteq> None" .
  then have "c \<in> set ks" using ks by (auto simp: range_order_def)
  with f n have "c \<in> finished st'" by blast
  moreover from p have "dfs_inv g st'" by (simp add: dfs_post_def)
  ultimately have "(c, c) \<notin> (depends g)\<^sup>+" by (simp add: dfs_inv_def)
  with c show False by simp
qed

lemma Sort_Inl_sound:
  assumes "Sort fuel g ks = Some (Inl err, g')"
  shows "cycle_or_missing g err"
proof -
  let ?st0 = "\<lparr>visited = (\<lambda>_. False), stack = (\<lambda>_. False), results = replicate (length ks) []\<rparr>"
  from assms obtain st' g1 where "Sort_range fuel ks (g, ?st0) = Some (Some err, g1, st')"
    by (auto simp: Sort_def split: option.splits prod.splits)
  then show ?thesis by (rule Sort_range_sound)
qed

lemma cycle3_order: "range_order (nodes cycle3) [''A'', ''B'', ''C'']"
  by (auto simp: range_order_def cycle3_def)

lemma cycle3_deps:
  "deps_of cycle3 n = (if n = ''A'' then [''C''] else if n = ''B'' then [''A'']
                        else if n = ''C'' then [''B''] else [])"
  by (simp add: deps_of_def cycle3_def NewNode_def)

lemma cycle3_cycle: "(''A'', ''A'') \<in> (depends cycle3)\<^sup>+"
proof -
  have 1: "(''A'', ''C'') \<in> depends cycle3" by (simp add: depends_def cycle3_deps)
  have 2: "(''C'', ''B'') \<in> depends cycle3" by (simp add: depends_def cycle3_deps)
  have 3: "(''B'', ''A'') \<in> depends cycle3" by (simp add: depends_def cycle3_deps)
  from 1 2 have "(''A'', ''B'') \<in> (depends cycle3)\<^sup>+" by (rule trancl_into_trancl2 [OF _ r_into_trancl])
  from this 3 show ?thesis by (rule trancl_into_trancl)
qed

lemma cycle3_closed: "\<forall>n d. d \<in> set (deps_of cycle3 n) \<longrightarrow> nodes cycle3 d \<noteq> None"
proof (intro allI impI)
  fix n d assume "d \<in> set (deps_of cycle3 n)"
  then have "d = ''A'' \<or> d = ''B'' \<or> d = ''C''"
    by (auto simp: cycle3_deps split: if_splits)
  then show "nodes cycle3 d \<noteq> None" by (auto simp: cycle3_def)
qed

lemma Sort_cycle3:
  "Sort (Suc (Suc (Suc 0))) cycle3 [''A'', ''B'', ''C''] = Some (Inl (DetectedCycle ''A''), cycle3)"
  by (simp add: Sort_def cycle3_def NewNode_def)

lemma cycle_missing_cycle: "(''A'', ''A'') \<in> (depends cycle_missing)\<^sup>+"
proof -
  have 1: "(''A'', ''B'') \<in> depends cycle_missing"
    by (simp add: depends_def deps_of_def cycle_missing_def NewNode_def)
  have 2: "(''B'', ''A'') \<in> depends cycle_missing"
    by (simp add: depends_def deps_of_def cycle_missing_def NewNode_def)
  from 1 2 show ?thesis by (rule trancl_into_trancl [OF r_into_trancl])
qed

lemma Sort_cycle_missing:
  "Sort (Suc (Suc 0)) cycle_missing [''A'', ''B'']
     = Some (Inl (NodeDoesNotExist ''Z''), cycle_missing)"
  by (simp add: Sort_def cycle_missing_def NewNode_def)

text \<open>
  Claim C4, as amended. On a graph with a dependency cycle, whatever the orders of the
  ranges, \<open>Sort\<close> fails and returns no ordering. The error is "Detected cycle on c" for
  a node \<open>c\<close> that lies on a cycle (the dependency found on the stack), or "Node d does
  not exist" for a dependency \<open>d\<close> that is not a key of the graph; when every
  dependency is a key of the graph, it is the first of the two.
\<close>

theorem Sort_fails_on_cycle:
  assumes ks: "range_order (nodes g) ks" and cyc: "(c0, c0) \<in> (depends g)\<^sup>+"
    and fuel: "length ks \<le> fuel"
  shows "\<exists>err. Sort fuel g ks = Some (Inl err, g) \<and>
           ((\<exists>c. err = DetectedCycle c \<and> (c, c) \<in> (depends g)\<^sup>+) \<or>
            (\<exists>n d. err = NodeDoesNotExist d \<and> d \<in> set (deps_of g n) \<and> nodes g d = None)) \<and>
           ((\<forall>n d. d \<in> set (deps_of g n) \<longrightarrow> nodes g d \<noteq> None) \<longrightarrow>
              (\<exists>c. err = DetectedCycle c \<and> (c, c) \<in> (depends g)\<^sup>+))"
proof -
  from Sort_total [OF ks fuel] obtain r where r: "Sort fuel g ks = Some (r, g)" ..
  show ?thesis
  proof (cases r)
    case (Inr rs)
    with r Sort_Inr_acyclic [OF ks, of fuel rs g c0] cyc show ?thesis by simp
  next
    case (Inl err)
    with r have "cycle_or_missing g err" by (intro Sort_Inl_sound [of fuel g ks err g]) simp
    then have d: "(\<exists>c. err = DetectedCycle c \<and> (c, c) \<in> (depends g)\<^sup>+) \<or>
            (\<exists>n d. err = NodeDoesNotExist d \<and> d \<in> set (deps_of g n) \<and> nodes g d = None)"
      by (simp add: cycle_or_missing_def)
    then have "(\<forall>n d. d \<in> set (deps_of g n) \<longrightarrow> nodes g d \<noteq> None) \<longrightarrow>
              (\<exists>c. err = DetectedCycle c \<and> (c, c) \<in> (depends g)\<^sup>+)"
      by blast
    with r Inl d show ?thesis by blast
  qed
qed

theorem Sort_fails_on_cycle_witness:
  "range_order (nodes cycle3) [''A'', ''B'', ''C''] \<and>
   (''A'', ''A'') \<in> (depends cycle3)\<^sup>+ \<and>
   length [''A'', ''B'', ''C''] \<le> Suc (Suc (Suc 0)) \<and>
   (\<Union>n. set (deps_of cycle3 n)) \<subseteq> dom (nodes cycle3) \<and>
   Sort (Suc (Suc (Suc 0))) cycle3 [''A'', ''B'', ''C'']
     = Some (Inl (DetectedCycle ''A''), cycle3)"
proof -
  have len: "length [''A'', ''B'', ''C''] \<le> Suc (Suc (Suc 0))" by simp
  from Sort_fails_on_cycle [OF cycle3_order cycle3_cycle len] cycle3_closed
  obtain c where "Sort (Suc (Suc (Suc 0))) cycle3 [''A'', ''B'', ''C'']
      = Some (Inl (DetectedCycle c), cycle3)" by blast
  with Sort_cycle3 have s: "Sort (Suc (Suc (Suc 0))) cycle3 [''A'', ''B'', ''C'']
      = Some (Inl (DetectedCycle ''A''), cycle3)" by simp
  have cl: "(\<Union>n. set (deps_of cycle3 n)) \<subseteq> dom (nodes cycle3)"
    using cycle3_closed by (auto simp: domIff)
  from cycle3_order cycle3_cycle len cl s show ?thesis by (intro conjI)
qed

text \<open>
  Claim C4 as stated fails on a graph that has a cycle and a dependency that is not a
  key: \<open>visit\<close> tests for the missing key before it follows the edge, and here it meets
  the missing dependency \<open>Z\<close> of \<open>A\<close> before the cycle.
\<close>

theorem Sort_cycle_with_missing_dependency:
  "(''A'', ''A'') \<in> (depends cycle_missing)\<^sup>+ \<and>
   deps_of cycle_missing ''A'' = [''Z'', ''B''] \<and>
   deps_of cycle_missing ''B'' = [''A''] \<and>
   nodes cycle_missing ''Z'' = None \<and>
   Sort (Suc (Suc 0)) cycle_missing [''A'', ''B'']
     = Some (Inl (NodeDoesNotExist ''Z''), cycle_missing)"
  using cycle_missing_cycle Sort_cycle_missing
  by (simp add: deps_of_def cycle_missing_def NewNode_def)

end
